theory Spec2Isabelle
  imports Complex_Main "HOL-Library.Word" "HOL-Library.Sublist" "HOL-Library.Multiset"
begin

unbundle bit_operations_syntax

section \<open>Strings\<close>

text \<open>
  A JavaScript string is modelled by the list of its code units, for texts whose code
  units are below 256. In that range the class \<open>\s\<close> of regular expressions and
  \<open>String.prototype.trim\<close> agree on the white space: tab, line feed, vertical tab,
  form feed, carriage return, space and the no-break space.
\<close>

definition is_ws :: "char \<Rightarrow> bool" where
  "is_ws c = ((of_char c :: nat) \<in> {9, 10, 11, 12, 13, 32, 160})"

definition trim :: "string \<Rightarrow> string" where
  "trim s = rev (dropWhile is_ws (rev (dropWhile is_ws s)))"

text \<open>\<open>x || d\<close> on an optional number: \<open>undefined\<close> and \<open>0\<close> are falsy.\<close>

definition or_default :: "nat option \<Rightarrow> nat \<Rightarrow> nat" where
  "or_default x d = (case x of None \<Rightarrow> d | Some n \<Rightarrow> if n = 0 then d else n)"

section \<open>chunker.js\<close>

definition DEFAULT_CHUNK_SIZE :: nat where "DEFAULT_CHUNK_SIZE = 800"
definition DEFAULT_OVERLAP :: nat where "DEFAULT_OVERLAP = 200"
definition MIN_CHUNK_SIZE :: nat where "MIN_CHUNK_SIZE = 100"

text \<open>The options of \<open>chunkText\<close>; a size is a natural number or is not given.\<close>

record chunk_options =
  chunkSize :: "nat option"
  overlap :: "nat option"
  minChunkSize :: "nat option"

text \<open>\<open>text.replace(/\s+/g, ' ')\<close>: every maximal run of white space becomes one space.\<close>

function collapse_ws :: "string \<Rightarrow> string" where
  "collapse_ws [] = []"
| "collapse_ws (c # cs) =
     (if is_ws c then CHR '' '' # collapse_ws (dropWhile is_ws cs) else c # collapse_ws cs)"
  by pat_completeness auto
termination
  by (relation "measure length") (auto simp: length_dropWhile_le le_imp_less_Suc)

definition is_terminal :: "char \<Rightarrow> bool" where
  "is_terminal c = (c = CHR ''.'' \<or> c = CHR ''!'' \<or> c = CHR ''?'')"

text \<open>
  \<open>text.split(/(?<=[.!?])\s+/)\<close>: the text is cut at every run of white space whose
  first character follows one of \<open>.\<close>, \<open>!\<close>, \<open>?\<close>; the run is dropped. The first
  argument is the piece read so far.
\<close>

function split_boundaries :: "string \<Rightarrow> string \<Rightarrow> string list" where
  "split_boundaries cur [] = [cur]"
| "split_boundaries cur (c # cs) =
     (if is_ws c \<and> cur \<noteq> [] \<and> is_terminal (last cur)
      then cur # split_boundaries [] (dropWhile is_ws cs)
      else split_boundaries (cur @ [c]) cs)"
  by pat_completeness auto
termination
  by (relation "measure (\<lambda>(cur, s). length s)") (auto simp: length_dropWhile_le le_imp_less_Suc)

definition splitSentences :: "string \<Rightarrow> string list" where
  "splitSentences t = filter (\<lambda>s. trim s \<noteq> []) (split_boundaries [] t)"

text \<open>
  The overlap loop of \<open>chunkText\<close>: it walks \<open>currentSentences\<close> from the end (the
  first argument after the bound is the reversed rest) and stops at the first sentence
  that does not fit.
\<close>

fun overlap_loop :: "nat \<Rightarrow> string list \<Rightarrow> string \<Rightarrow> string list \<Rightarrow> string \<times> string list" where
  "overlap_loop ov [] overlapText overlapSentences = (overlapText, overlapSentences)"
| "overlap_loop ov (s # rest) overlapText overlapSentences =
     (let testOverlap = s @ '' '' @ overlapText
      in if length testOverlap \<le> ov
         then overlap_loop ov rest testOverlap (s # overlapSentences)
         else (overlapText, overlapSentences))"

record chunk_state =
  chunks :: "string list"
  currentChunk :: string
  currentSentences :: "string list"

text \<open>One round of the loop \<open>for (const sentence of sentences)\<close>.\<close>

definition chunk_step :: "nat \<Rightarrow> nat \<Rightarrow> nat \<Rightarrow> chunk_state \<Rightarrow> string \<Rightarrow> chunk_state" where
  "chunk_step cs ov mn st sentence =
     (if length (currentChunk st) + length sentence + 1 > cs
      then
        (let closed = (if length (currentChunk st) \<ge> mn
                       then chunks st @ [trim (currentChunk st)] else chunks st);
             (overlapText, overlapSentences) = overlap_loop ov (rev (currentSentences st)) [] []
         in \<lparr>chunks = closed,
             currentChunk = overlapText @ sentence,
             currentSentences = overlapSentences @ [sentence]\<rparr>)
      else
        \<lparr>chunks = chunks st,
         currentChunk = currentChunk st @ (if currentChunk st \<noteq> [] then '' '' else []) @ sentence,
         currentSentences = currentSentences st @ [sentence]\<rparr>)"

text \<open>The code after the loop (\<open>// Add final chunk\<close>).\<close>

definition chunk_finish :: "nat \<Rightarrow> chunk_state \<Rightarrow> string list" where
  "chunk_finish mn st =
     (if length (currentChunk st) \<ge> mn then chunks st @ [trim (currentChunk st)]
      else if length (chunks st) > 0 \<and> length (currentChunk st) > 0
      then butlast (chunks st) @ [last (chunks st) @ '' '' @ trim (currentChunk st)]
      else if length (currentChunk st) > 0 then chunks st @ [trim (currentChunk st)]
      else chunks st)"

definition chunkText :: "string \<Rightarrow> chunk_options \<Rightarrow> string list" where
  "chunkText text options =
     (let cs = or_default (chunkSize options) DEFAULT_CHUNK_SIZE;
          ov = or_default (overlap options) DEFAULT_OVERLAP;
          mn = or_default (minChunkSize options) MIN_CHUNK_SIZE;
          cleaned = trim (collapse_ws text)
      in if length cleaned \<le> cs then [cleaned]
         else chunk_finish mn
                (foldl (chunk_step cs ov mn)
                   \<lparr>chunks = [], currentChunk = [], currentSentences = []\<rparr>
                   (splitSentences cleaned)))"


text \<open>\<open>text.indexOf(pattern)\<close>, searching from position \<open>i\<close> of the original text.\<close>

fun indexOf_from :: "nat \<Rightarrow> string \<Rightarrow> string \<Rightarrow> int" where
  "indexOf_from i [] pat = (if pat = [] then int i else - 1)"
| "indexOf_from i (c # cs) pat =
     (if take (length pat) (c # cs) = pat then int i else indexOf_from (Suc i) cs pat)"

record chunk =
  content :: string
  index :: nat
  charStart :: int
  charLength :: nat

definition createChunks :: "string \<Rightarrow> chunk_options \<Rightarrow> chunk list" where
  "createChunks text options =
     map (\<lambda>(i, c). \<lparr>content = c, index = i,
                     charStart = indexOf_from 0 text (take 50 c),
                     charLength = length c\<rparr>)
         (enumerate 0 (chunkText text options))"

section \<open>embeddings.js\<close>

text \<open>
  An embedding is a list of numbers. The functions of this section only store vectors,
  pass them on and test them for emptiness, so the numbers are kept as reals.
\<close>

type_synonym vec = "real list"

definition GEMINI_EMBEDDING_MODEL :: string where
  "GEMINI_EMBEDDING_MODEL = ''text-embedding-004''"
definition OPENAI_EMBEDDING_MODEL :: string where
  "OPENAI_EMBEDDING_MODEL = ''text-embedding-3-small''"
definition MAX_RETRIES :: nat where "MAX_RETRIES = 3"
definition BATCH_SIZE :: nat where "BATCH_SIZE = 10"
definition MAX_INPUT_CHARS :: nat where "MAX_INPUT_CHARS = 8000"
definition CACHE_MAX_SIZE :: nat where "CACHE_MAX_SIZE = 1000"

datatype error =
    LockContention
  | ExtractionError string
  | ProviderError string
  | NoEmbedding
  | PersistenceError string

text \<open>
  \<open>LockContention\<close> is \<open>Error('Another ingestion is in progress')\<close>,
  \<open>NoEmbedding\<close> is \<open>Error('No embedding provider available or all providers failed')\<close>,
  \<open>ProviderError\<close> carries the message of an error thrown by a call to an embedding
  service, \<open>ExtractionError\<close> one thrown by the extractors, \<open>PersistenceError\<close> one
  thrown by the database.
\<close>

record embed_result =
  embedding :: vec
  provider :: "string option"
  model :: "string option"

subsection \<open>EmbeddingCache\<close>

text \<open>
  A JavaScript \<open>Map\<close> keeps its entries in insertion order: it is an association list,
  oldest entry first. \<open>Map.set\<close> overwrites the value of a key in place and appends a
  new key; \<open>Map.delete\<close> removes the key.
\<close>

fun map_set :: "'k \<Rightarrow> 'v \<Rightarrow> ('k \<times> 'v) list \<Rightarrow> ('k \<times> 'v) list" where
  "map_set k v [] = [(k, v)]"
| "map_set k v (p # ps) = (if fst p = k then (k, v) # ps else p # map_set k v ps)"

definition map_delete :: "'k \<Rightarrow> ('k \<times> 'v) list \<Rightarrow> ('k \<times> 'v) list" where
  "map_delete k ps = filter (\<lambda>p. fst p \<noteq> k) ps"

type_synonym embedding_cache = "(32 word \<times> embed_result) list"

text \<open>
  \<open>hash(text, provider)\<close>: the loop keeps a 32-bit integer (\<open>hash & hash\<close> truncates
  to 32 bits); its decimal string is the key. The string is determined by the integer, so
  the key is modelled by the 32-bit word.
\<close>

definition cache_hash :: "string \<Rightarrow> string \<Rightarrow> 32 word" where
  "cache_hash text prov =
     foldl (\<lambda>h c. (push_bit 5 h - h) + of_nat (of_char c)) 0 (prov @ '':'' @ text)"

definition cache_get :: "embedding_cache \<Rightarrow> 32 word \<Rightarrow> embed_result option \<times> embedding_cache" where
  "cache_get c key =
     (case map_of c key of
        Some v \<Rightarrow> (Some v, map_set key v (map_delete key c))
      | None \<Rightarrow> (None, c))"

definition cache_set :: "embedding_cache \<Rightarrow> 32 word \<Rightarrow> embed_result \<Rightarrow> embedding_cache" where
  "cache_set c key v =
     map_set key v
       (if length c \<ge> CACHE_MAX_SIZE
        then (case c of [] \<Rightarrow> [] | p # _ \<Rightarrow> map_delete (fst p) c)
        else c)"

subsection \<open>Calls to the embedding services\<close>

text \<open>
  The two HTTP services are the environment. A \<open>world\<close> tells, for a service, the text
  sent and the number of the attempt within one retry chain, what the call does: it
  returns a vector (\<open>data.embedding?.values || []\<close>, possibly empty) or throws.
  Waiting (\<open>sleep\<close>) is not modelled.
\<close>

datatype api = Gemini | OpenAI

datatype response = Vector vec | Throws string

type_synonym world = "api \<Rightarrow> string \<Rightarrow> nat \<Rightarrow> response"

definition embedWithGemini :: "world \<Rightarrow> string \<Rightarrow> nat \<Rightarrow> response" where
  "embedWithGemini w text attempt = w Gemini (take MAX_INPUT_CHARS text) attempt"

definition embedWithOpenAI :: "world \<Rightarrow> string \<Rightarrow> nat \<Rightarrow> response" where
  "embedWithOpenAI w text attempt = w OpenAI (take MAX_INPUT_CHARS text) attempt"

text \<open>
  \<open>retryWithBackoff(fn, retries)\<close>, from round \<open>i\<close> on. When the loop ends without a
  return the result is \<open>undefined\<close>, here \<open>None\<close>.
\<close>

function retryWithBackoff :: "(nat \<Rightarrow> response) \<Rightarrow> nat \<Rightarrow> nat \<Rightarrow> string + vec option" where
  "retryWithBackoff fn retries i =
     (if i < retries
      then (case fn i of
              Vector v \<Rightarrow> Inr (Some v)
            | Throws e \<Rightarrow> if i = retries - 1 then Inl e else retryWithBackoff fn retries (Suc i))
      else Inr None)"
  by pat_completeness auto
termination
  by (relation "measure (\<lambda>(fn, retries, i). retries - i)") auto

declare retryWithBackoff.simps [simp del]

subsection \<open>EmbeddingProvider\<close>

record embed_config =
  preferredProvider :: string
  geminiKey :: "string option"
  openaiKey :: "string option"

text \<open>A key is truthy when it is a non-empty string.\<close>

definition truthy :: "string option \<Rightarrow> bool" where
  "truthy k = (case k of None \<Rightarrow> False | Some s \<Rightarrow> s \<noteq> [])"

text \<open>
  The body of \<open>embed\<close> after a cache miss. The three local variables
  \<open>embedding\<close>, \<open>provider\<close>, \<open>model\<close> are a triple; \<open>!embedding\<close> holds exactly
  when \<open>embedding\<close> is \<open>undefined\<close> (an empty array is truthy). Only the first call
  is inside \<open>try\<close>/\<open>catch\<close>.
\<close>

definition embed_fetch :: "embed_config \<Rightarrow> world \<Rightarrow> string \<Rightarrow> error + embed_result" where
  "embed_fetch cfg w text =
     (let s1 =
        (if preferredProvider cfg = ''gemini'' \<and> truthy (geminiKey cfg)
         then (case retryWithBackoff (embedWithGemini w text) MAX_RETRIES 0 of
                 Inr v \<Rightarrow> (v, Some ''gemini'', Some GEMINI_EMBEDDING_MODEL)
               | Inl e \<Rightarrow> (None, None, None))
         else (None, None, None))
      in case (if fst s1 = None \<and> truthy (openaiKey cfg)
               then (case retryWithBackoff (embedWithOpenAI w text) MAX_RETRIES 0 of
                       Inr v \<Rightarrow> Inr (v, Some ''openai'', Some OPENAI_EMBEDDING_MODEL)
                     | Inl e \<Rightarrow> Inl (ProviderError e))
               else Inr s1) of
           Inl e \<Rightarrow> Inl e
         | Inr s2 \<Rightarrow>
            (case (if fst s2 = None \<and> preferredProvider cfg = ''openai'' \<and> truthy (geminiKey cfg)
                   then (case retryWithBackoff (embedWithGemini w text) MAX_RETRIES 0 of
                           Inr v \<Rightarrow> Inr (v, Some ''gemini'', Some GEMINI_EMBEDDING_MODEL)
                         | Inl e \<Rightarrow> Inl (ProviderError e))
                   else Inr s2) of
               Inl e \<Rightarrow> Inl e
             | Inr (emb, p, m) \<Rightarrow>
                (case emb of
                   None \<Rightarrow> Inl NoEmbedding
                 | Some v \<Rightarrow>
                     if length v = 0 then Inl NoEmbedding
                     else Inr \<lparr>embedding = v, provider = p, model = m\<rparr>)))"

definition embed :: "embed_config \<Rightarrow> world \<Rightarrow> embedding_cache \<Rightarrow> string
    \<Rightarrow> (error + embed_result) \<times> embedding_cache" where
  "embed cfg w c text =
     (let cacheKey = cache_hash text (preferredProvider cfg);
          (cached, c1) = cache_get c cacheKey
      in case cached of
           Some r \<Rightarrow> (Inr r, c1)
         | None \<Rightarrow>
            (case embed_fetch cfg w text of
               Inl e \<Rightarrow> (Inl e, c1)
             | Inr r \<Rightarrow> (Inr r, cache_set c1 cacheKey r)))"


subsection \<open>embedBatch\<close>

text \<open>
  \<open>Promise.all(batch.map(text => this.embed(text)))\<close> starts the calls of a group one
  after the other, and each call runs without interruption up to its first \<open>await\<close>:
  the cache look-ups of the whole group come first, in the order of the texts, and the
  stores of the results come after them. The order in which the pending calls finish
  depends on the network; their stores are taken in the order of the texts, and the cache
  after a rejected group is the one reached when its other calls have finished too (no
  call is cancelled). The call for the text at position \<open>i\<close> of the whole batch talks
  to the world \<open>ws i\<close>; \<open>rc i\<close> is the race of the group that starts at position
  \<open>i\<close>.
\<close>

fun group_lookups :: "embed_config \<Rightarrow> embedding_cache \<Rightarrow> string list
    \<Rightarrow> embed_result option list \<times> embedding_cache" where
  "group_lookups cfg c [] = ([], c)"
| "group_lookups cfg c (t # ts) =
     (let (r, c1) = cache_get c (cache_hash t (preferredProvider cfg));
          (rs, c2) = group_lookups cfg c1 ts
      in (r # rs, c2))"

fun group_fetches :: "embed_config \<Rightarrow> (nat \<Rightarrow> world) \<Rightarrow> nat \<Rightarrow> embedding_cache
    \<Rightarrow> (string \<times> embed_result option) list
    \<Rightarrow> (error + embed_result) list \<times> embedding_cache" where
  "group_fetches cfg ws i c [] = ([], c)"
| "group_fetches cfg ws i c ((t, cached) # rest) =
     (case cached of
        Some r \<Rightarrow>
          (let (outs, c') = group_fetches cfg ws (Suc i) c rest in (Inr r # outs, c'))
      | None \<Rightarrow>
          (case embed_fetch cfg (ws i) t of
             Inl e \<Rightarrow>
               (let (outs, c') = group_fetches cfg ws (Suc i) c rest in (Inl e # outs, c'))
           | Inr r \<Rightarrow>
               (let (outs, c') =
                      group_fetches cfg ws (Suc i)
                        (cache_set c (cache_hash t (preferredProvider cfg)) r) rest
                in (Inr r # outs, c'))))"

text \<open>
  \<open>Promise.all\<close>: all the values in order when every call is fulfilled, otherwise the
  rejection that comes first in time. Which of the rejections of a group that is depends
  on the network: the number \<open>race\<close> selects it.
\<close>

fun rejections :: "(error + 'a) list \<Rightarrow> error list" where
  "rejections [] = []"
| "rejections (Inl e # rest) = e # rejections rest"
| "rejections (Inr x # rest) = rejections rest"

fun fulfilled :: "(error + 'a) list \<Rightarrow> 'a list" where
  "fulfilled [] = []"
| "fulfilled (Inl e # rest) = fulfilled rest"
| "fulfilled (Inr x # rest) = x # fulfilled rest"

definition promise_all :: "nat \<Rightarrow> (error + 'a) list \<Rightarrow> error + 'a list" where
  "promise_all race outs =
     (case rejections outs of
        [] \<Rightarrow> Inr (fulfilled outs)
      | e # es \<Rightarrow> Inl ((e # es) ! (race mod length (e # es))))"

function embedBatch_from :: "embed_config \<Rightarrow> (nat \<Rightarrow> world) \<Rightarrow> (nat \<Rightarrow> nat) \<Rightarrow> nat
    \<Rightarrow> embedding_cache \<Rightarrow> string list \<Rightarrow> (error + embed_result list) \<times> embedding_cache" where
  "embedBatch_from cfg ws rc i c texts =
     (if i < length texts
      then
        (let batch = take BATCH_SIZE (drop i texts);
             (cached, c1) = group_lookups cfg c batch;
             (outs, c2) = group_fetches cfg ws i c1 (zip batch cached)
         in case promise_all (rc i) outs of
              Inl e \<Rightarrow> (Inl e, c2)
            | Inr batchResults \<Rightarrow>
               (case embedBatch_from cfg ws rc (i + BATCH_SIZE) c2 texts of
                  (Inl e, c3) \<Rightarrow> (Inl e, c3)
                | (Inr results, c3) \<Rightarrow> (Inr (batchResults @ results), c3)))
      else (Inr [], c))"
  by pat_completeness auto
termination
  by (relation "measure (\<lambda>(cfg, ws, rc, i, c, texts). length texts - i)")
     (auto simp: BATCH_SIZE_def)

declare embedBatch_from.simps [simp del]

definition embedBatch :: "embed_config \<Rightarrow> (nat \<Rightarrow> world) \<Rightarrow> (nat \<Rightarrow> nat) \<Rightarrow> embedding_cache
    \<Rightarrow> string list \<Rightarrow> (error + embed_result list) \<times> embedding_cache" where
  "embedBatch cfg ws rc c texts = embedBatch_from cfg ws rc 0 c texts"

section \<open>db.js\<close>

subsection \<open>normalizeUrl\<close>

text \<open>
  The fields of a parsed \<open>URL\<close> object that \<open>normalizeUrl\<close> reads or writes.
  \<open>protocol\<close> ends with the colon, \<open>port\<close> is empty for the default port,
  \<open>searchParams\<close> is the list of name and value pairs of the query. For a
  \<open>blob:\<close> URL whose path is an \<open>http\<close> or \<open>https\<close> URL, \<open>blob_inner\<close> holds
  the protocol, host name and port of that inner URL; it is \<open>None\<close> for every other
  URL.
\<close>

record url =
  protocol :: string
  hostname :: string
  port :: string
  pathname :: string
  searchParams :: "(string \<times> string) list"
  hash :: string
  blob_inner :: "(string \<times> string \<times> string) option"

text \<open>
  What the platform provides: the parser \<open>new URL(s)\<close> (\<open>None\<close> when it throws), the
  percent-encoding of names and values in a serialised query, the SHA-256 digest in
  hexadecimal, and the rounding of a number to a 32-bit float that \<open>Float32Array\<close>
  does when a number is stored in it.
\<close>

record platform =
  new_URL :: "string \<Rightarrow> url option"
  form_encode :: "string \<Rightarrow> string"
  sha256_hex :: "string \<Rightarrow> string"
  to_float32 :: "real \<Rightarrow> real"

text \<open>
  \<open>origin\<close> of a URL: scheme, host and port for the schemes that have one, the
  origin of the inner URL for a \<open>blob:\<close> URL that has one, the string \<open>null\<close> for
  the others.
\<close>

definition tuple_origin :: "string \<Rightarrow> string \<Rightarrow> string \<Rightarrow> string" where
  "tuple_origin proto host prt = proto @ ''//'' @ host @ (if prt = [] then [] else '':'' @ prt)"

definition origin :: "url \<Rightarrow> string" where
  "origin u =
     (if protocol u \<in> set [''http:'', ''https:'', ''ftp:'', ''ws:'', ''wss:'']
      then tuple_origin (protocol u) (hostname u) (port u)
      else if protocol u = ''blob:''
      then (case blob_inner u of
              Some (proto, host, prt) \<Rightarrow> tuple_origin proto host prt
            | None \<Rightarrow> ''null'')
      else ''null'')"

text \<open>
  \<open>search\<close>, after \<open>searchParams\<close> has been changed: the pairs serialised again, and
  the empty string when none is left.
\<close>

fun join_with :: "string \<Rightarrow> string list \<Rightarrow> string" where
  "join_with sep [] = []"
| "join_with sep [x] = x"
| "join_with sep (x # y # zs) = x @ sep @ join_with sep (y # zs)"

definition search_of :: "platform \<Rightarrow> url \<Rightarrow> string" where
  "search_of P u =
     (if searchParams u = [] then []
      else ''?'' @ join_with ''&''
             (map (\<lambda>(k, v). form_encode P k @ ''='' @ form_encode P v) (searchParams u)))"

text \<open>
  The \<open>hostname\<close> setter. A URL of one of the schemes above keeps its host when the new
  one is empty; otherwise the new name is taken as it is.
\<close>

definition set_hostname :: "url \<Rightarrow> string \<Rightarrow> url" where
  "set_hostname u h =
     (if h = [] \<and> protocol u \<in> set [''http:'', ''https:'', ''ftp:'', ''ws:'', ''wss:'']
      then u else u\<lparr>hostname := h\<rparr>)"

text \<open>
  \<open>toLowerCase\<close> on code units below 256: the letters A to Z and the capital letters
  of Latin-1.
\<close>

definition lower_char :: "char \<Rightarrow> char" where
  "lower_char c =
     (let n = (of_char c :: nat)
      in if (65 \<le> n \<and> n \<le> 90) \<or> (192 \<le> n \<and> n \<le> 222 \<and> n \<noteq> 215)
         then char_of (n + 32) else c)"

definition toLowerCase :: "string \<Rightarrow> string" where
  "toLowerCase s = map lower_char s"

definition trackingParams :: "string list" where
  "trackingParams = [''utm_source'', ''utm_medium'', ''utm_campaign'', ''utm_content'',
     ''fbclid'', ''igshid'', ''ref'', ''s'', ''t'', ''si'', ''feature'']"

text \<open>\<open>searchParams.delete(p)\<close> removes every pair named \<open>p\<close>.\<close>

definition params_delete :: "string \<Rightarrow> (string \<times> string) list \<Rightarrow> (string \<times> string) list" where
  "params_delete p ps = filter (\<lambda>kv. fst kv \<noteq> p) ps"

text \<open>\<open>replace(/^www\./, '')\<close> and \<open>replace(/\/$/, '')\<close>.\<close>

definition strip_www :: "string \<Rightarrow> string" where
  "strip_www h = (if take 4 h = ''www.'' then drop 4 h else h)"

definition strip_trailing_slash :: "string \<Rightarrow> string" where
  "strip_trailing_slash p = (if p \<noteq> [] \<and> last p = CHR ''/'' then butlast p else p)"

definition normalizeUrl :: "platform \<Rightarrow> string option \<Rightarrow> string option" where
  "normalizeUrl P u =
     (case u of
        None \<Rightarrow> None
      | Some s \<Rightarrow>
          if s = [] then None
          else
            (case new_URL P s of
               None \<Rightarrow> Some (toLowerCase s)
             | Some parsed \<Rightarrow>
                (let p1 = parsed\<lparr>searchParams := fold params_delete trackingParams (searchParams parsed)\<rparr>;
                     p2 = (if hostname p1 = ''twitter.com'' then set_hostname p1 ''x.com'' else p1);
                     p3 = set_hostname p2 (strip_www (hostname p2));
                     normalized = origin p3 @ strip_trailing_slash (pathname p3) @ search_of P p3
                 in Some (toLowerCase normalized))))"

definition hashContent :: "platform \<Rightarrow> string \<Rightarrow> string" where
  "hashContent P c = sha256_hex P c"


subsection \<open>The tables\<close>

text \<open>
  The columns of \<open>sources\<close> and \<open>chunks\<close> that the code writes (the time stamps
  and the row ids of the chunks are left out). \<open>next_id\<close> is the next value of the
  \<open>AUTOINCREMENT\<close> key of \<open>sources\<close>. An embedding is stored as the 32-bit floats
  of a \<open>Float32Array\<close>: the column holds the numbers rounded by \<open>to_float32\<close>.
\<close>

record source_row =
  s_id :: nat
  s_url :: "string option"
  s_url_normalized :: "string option"
  s_title :: string
  s_source_type :: string
  s_summary :: string
  s_raw_content :: string
  s_content_hash :: string
  s_tags :: "string list"
  s_metadata :: "(string \<times> string) list"

record chunk_row =
  c_source_id :: nat
  c_chunk_index :: nat
  c_content :: string
  c_embedding :: "vec option"
  c_embedding_dim :: "nat option"
  c_embedding_provider :: "string option"
  c_embedding_model :: "string option"

record database =
  sources :: "source_row list"
  chunk_rows :: "chunk_row list"
  next_id :: nat

text \<open>
  \<open>sourceExists\<close>: \<open>SELECT id ... WHERE ... = ?\<close> with \<open>.get\<close> gives the first
  matching row or \<open>undefined\<close>; \<open>byUrl || byHash\<close> is the first of the two that is
  a row. The result is the \<open>id\<close> of that row. An empty string is falsy in
  \<open>normalizedUrl ? ... : null\<close>.
\<close>

definition sourceExists :: "platform \<Rightarrow> database \<Rightarrow> string option \<Rightarrow> string \<Rightarrow> nat option" where
  "sourceExists P d u c =
     (let normalizedUrl = normalizeUrl P u;
          contentHash = hashContent P c;
          byUrl = (case normalizedUrl of
                     None \<Rightarrow> None
                   | Some n \<Rightarrow>
                       if n = [] then None
                       else find (\<lambda>r. s_url_normalized r = Some n) (sources d));
          byHash = find (\<lambda>r. s_content_hash r = contentHash) (sources d)
      in case byUrl of
           Some r \<Rightarrow> Some (s_id r)
         | None \<Rightarrow> (case byHash of Some r \<Rightarrow> Some (s_id r) | None \<Rightarrow> None))"

record source_input =
  i_url :: "string option"
  i_title :: string
  i_sourceType :: string
  i_summary :: string
  i_rawContent :: string
  i_tags :: "string list"
  i_metadata :: "(string \<times> string) list"

text \<open>
  \<open>insertSource\<close>: the \<open>INSERT\<close> fails when a \<open>UNIQUE\<close> column would repeat a
  value (\<open>NULL\<close> values do not count); otherwise the row is added under the next id,
  which is returned.
\<close>

definition insertSource :: "platform \<Rightarrow> database \<Rightarrow> source_input \<Rightarrow> error + nat \<times> database" where
  "insertSource P d i =
     (let n = normalizeUrl P (i_url i);
          h = hashContent P (i_rawContent i)
      in if (n \<noteq> None \<and> (\<exists>r\<in>set (sources d). s_url_normalized r = n))
            \<or> (\<exists>r\<in>set (sources d). s_content_hash r = h)
         then Inl (PersistenceError ''UNIQUE constraint failed'')
         else Inr (next_id d,
                   d\<lparr>sources := sources d @
                        [\<lparr>s_id = next_id d, s_url = i_url i, s_url_normalized = n,
                          s_title = i_title i, s_source_type = i_sourceType i,
                          s_summary = i_summary i, s_raw_content = i_rawContent i,
                          s_content_hash = h, s_tags = i_tags i,
                          s_metadata = i_metadata i\<rparr>],
                      next_id := Suc (next_id d)\<rparr>))"

text \<open>
  \<open>insertChunks\<close>, one transaction: row \<open>i\<close> for the chunk at position \<open>i\<close>. A chunk
  comes with the result of its embedding (\<open>{...chunk, embedding, provider, model}\<close>),
  here a pair. \<open>chunk.embedding?.length || null\<close> is \<open>NULL\<close> for an empty vector.
\<close>

definition insertChunks :: "platform \<Rightarrow> database \<Rightarrow> nat \<Rightarrow> (chunk \<times> embed_result) list
    \<Rightarrow> database" where
  "insertChunks P d sourceId cs =
     d\<lparr>chunk_rows := chunk_rows d @
          map (\<lambda>(i, (ch, er)).
                 \<lparr>c_source_id = sourceId, c_chunk_index = i, c_content = content ch,
                  c_embedding = Some (map (to_float32 P) (embedding er)),
                  c_embedding_dim = (if length (embedding er) = 0 then None
                                     else Some (length (embedding er))),
                  c_embedding_provider = (if truthy (provider er) then provider er else None),
                  c_embedding_model = (if truthy (model er) then model er else None)\<rparr>)
              (enumerate 0 cs)\<rparr>"

text \<open>
  \<open>getAllChunksWithEmbeddings\<close>: the chunks with an embedding, each joined with its
  source.
\<close>

record joined_row =
  source_id :: nat
  chunk_index :: nat
  row_content :: string
  row_embedding :: vec
  title :: string
  row_url :: "string option"
  source_type :: string

definition getAllChunksWithEmbeddings :: "database \<Rightarrow> joined_row list" where
  "getAllChunksWithEmbeddings d =
     concat (map (\<lambda>c. case c_embedding c of
                         None \<Rightarrow> []
                       | Some e \<Rightarrow>
                           map (\<lambda>s. \<lparr>source_id = c_source_id c, chunk_index = c_chunk_index c,
                                      row_content = c_content c, row_embedding = e,
                                      title = s_title s, row_url = s_url s,
                                      source_type = s_source_type s\<rparr>)
                               (filter (\<lambda>s. s_id s = c_source_id c) (sources d)))
                 (chunk_rows d))"

section \<open>rag.js\<close>

definition LOCK_TIMEOUT :: real where "LOCK_TIMEOUT = 15 * 60 * 1000"

text \<open>
  A \<open>RAG\<close> object: the name of its backend, the chunk options and the configuration of
  its embedder. \<open>isAsync\<close> is \<open>this.backend === 'supabase'\<close>.
\<close>

record rag =
  backend :: string
  chunkOptions :: chunk_options
  embedder :: embed_config

definition isAsync :: "rag \<Rightarrow> bool" where
  "isAsync r = (backend r = ''supabase'')"

text \<open>
  What an ingestion reads and writes: the database, the lock file (\<open>None\<close> when it does
  not exist, otherwise its modification time in milliseconds) and the embedding cache of
  the module. Times are only subtracted and compared.
\<close>

record state =
  db :: database
  lockFile :: "real option"
  cache :: embedding_cache

text \<open>\<open>acquireLock\<close>, at time \<open>now\<close> (\<open>Date.now()\<close>).\<close>

definition acquireLock :: "rag \<Rightarrow> real \<Rightarrow> state \<Rightarrow> error + state" where
  "acquireLock r now st =
     (if isAsync r then Inr st
      else
        (case lockFile st of
           Some mtimeMs \<Rightarrow>
             (let age = now - mtimeMs
              in if age < LOCK_TIMEOUT then Inl LockContention
                 else Inr ((st\<lparr>lockFile := None\<rparr>)\<lparr>lockFile := Some now\<rparr>))
         | None \<Rightarrow> Inr (st\<lparr>lockFile := Some now\<rparr>)))"

definition releaseLock :: "rag \<Rightarrow> state \<Rightarrow> state" where
  "releaseLock r st =
     (if isAsync r then st
      else (case lockFile st of Some m \<Rightarrow> st\<lparr>lockFile := None\<rparr> | None \<Rightarrow> st))"

text \<open>The result of the extractors, \<open>extract(input, options.sourceType)\<close>.\<close>

record extracted =
  x_url :: "string option"
  x_title :: string
  x_content :: string
  x_excerpt :: string
  x_sourceType :: string

record ingest_options =
  sourceType :: "string option"
  tags :: "string list option"
  metadata :: "(string \<times> string) list option"

datatype ingest_result =
    Success nat string string nat
  | Duplicate nat

text \<open>
  \<open>Success sourceId title sourceType chunkCount\<close> and \<open>Duplicate sourceId\<close> are the two
  objects that \<open>ingest\<close> returns.

  The environment of one call of \<open>ingest\<close>: the time at which it starts, what the
  extractors do on an input (\<open>extractor\<close> stands for \<open>extract\<close> of
  \<open>extractors.js\<close>), the worlds of the embedding calls, and for every group of
  \<open>embedBatch\<close> (named by the position of its first text) the race of its rejections.
\<close>

record ingest_env =
  clock :: real
  extractor :: "string \<Rightarrow> string option \<Rightarrow> error + extracted"
  worlds :: "nat \<Rightarrow> world"
  races :: "nat \<Rightarrow> nat"

text \<open>The block inside \<open>try\<close>. It works on the state left by \<open>acquireLock\<close>.\<close>

definition ingest_body :: "platform \<Rightarrow> rag \<Rightarrow> ingest_env \<Rightarrow> state \<Rightarrow> string \<Rightarrow> ingest_options
    \<Rightarrow> (error + ingest_result) \<times> state" where
  "ingest_body P r env st input options =
     (case extractor env input (sourceType options) of
        Inl e \<Rightarrow> (Inl e, st)
      | Inr ex \<Rightarrow>
         (case sourceExists P (db st) (x_url ex) (x_content ex) of
            Some existing \<Rightarrow> (Inr (Duplicate existing), st)
          | None \<Rightarrow>
             (let chs = createChunks (x_content ex) (chunkOptions r);
                  (embedded, c') = embedBatch (embedder r) (worlds env) (races env) (cache st) (map content chs)
              in case embedded of
                   Inl e \<Rightarrow> (Inl e, st\<lparr>cache := c'\<rparr>)
                 | Inr embedResults \<Rightarrow>
                    (case insertSource P (db st)
                            \<lparr>i_url = x_url ex, i_title = x_title ex,
                             i_sourceType = x_sourceType ex, i_summary = x_excerpt ex,
                             i_rawContent = x_content ex,
                             i_tags = (case tags options of None \<Rightarrow> [] | Some ts \<Rightarrow> ts),
                             i_metadata = (case metadata options of None \<Rightarrow> [] | Some m \<Rightarrow> m)\<rparr> of
                       Inl e \<Rightarrow> (Inl e, st\<lparr>cache := c'\<rparr>)
                     | Inr (sourceId, d1) \<Rightarrow>
                        (Inr (Success sourceId (x_title ex) (x_sourceType ex) (length chs)),
                         st\<lparr>db := insertChunks P d1 sourceId (zip chs embedResults),
                            cache := c'\<rparr>)))))"

text \<open>
  \<open>ingest\<close>: \<open>acquireLock\<close> is called before \<open>try\<close>, so its error leaves the function
  at once; \<open>finally\<close> releases the lock on every way out of the block.
\<close>

definition ingest :: "platform \<Rightarrow> rag \<Rightarrow> ingest_env \<Rightarrow> state \<Rightarrow> string \<Rightarrow> ingest_options
    \<Rightarrow> (error + ingest_result) \<times> state" where
  "ingest P r env st input options =
     (case acquireLock r (clock env) st of
        Inl e \<Rightarrow> (Inl e, st)
      | Inr st1 \<Rightarrow>
         (let (res, st2) = ingest_body P r env st1 input options
          in (res, releaseLock r st2)))"


subsection \<open>search\<close>

record scored_row =
  row :: joined_row
  similarity :: real

record search_options =
  topK :: "nat option"
  maxCharsPerResult :: "nat option"
  dedupeBySource :: "bool option"

record search_result =
  o_sourceId :: nat
  o_title :: string
  o_url :: "string option"
  o_sourceType :: string
  o_content :: string
  o_similarity :: real
  o_chunkIndex :: nat

text \<open>
  \<open>Array.prototype.sort(compare)\<close> is a stable sort: \<open>b\<close> comes before \<open>a\<close> only
  if \<open>compare(a, b) > 0\<close>, and elements that compare equal keep their order. It is written
  here as the insertion sort that has this result. The scores are numbers that can be
  compared (no \<open>NaN\<close>), and the sign of a difference of two of them is exact, so they
  are kept as reals.
\<close>

fun sort_insert :: "('a \<Rightarrow> 'a \<Rightarrow> real) \<Rightarrow> 'a \<Rightarrow> 'a list \<Rightarrow> 'a list" where
  "sort_insert compare x [] = [x]"
| "sort_insert compare x (y # ys) =
     (if compare x y \<le> 0 then x # y # ys else y # sort_insert compare x ys)"

fun array_sort :: "('a \<Rightarrow> 'a \<Rightarrow> real) \<Rightarrow> 'a list \<Rightarrow> 'a list" where
  "array_sort compare [] = []"
| "array_sort compare (x # xs) = sort_insert compare x (array_sort compare xs)"

text \<open>
  The branch of \<open>search\<close> without native vector search. The scoring function is a
  parameter here; \<open>cosineSimilarity\<close> has a section of its own below.
\<close>

definition score :: "(vec \<Rightarrow> vec \<Rightarrow> real) \<Rightarrow> vec \<Rightarrow> joined_row \<Rightarrow> scored_row" where
  "score cosineSimilarity queryEmbedding c =
     \<lparr>row = c, similarity = cosineSimilarity queryEmbedding (row_embedding c)\<rparr>"

definition rank_in_memory :: "(vec \<Rightarrow> vec \<Rightarrow> real) \<Rightarrow> vec \<Rightarrow> joined_row list \<Rightarrow> scored_row list" where
  "rank_in_memory cosineSimilarity queryEmbedding rows =
     array_sort (\<lambda>a b. similarity b - similarity a)
       (map (score cosineSimilarity queryEmbedding) rows)"

text \<open>The filter with the set \<open>seenSources\<close>.\<close>

fun dedupe_filter :: "nat set \<Rightarrow> scored_row list \<Rightarrow> scored_row list" where
  "dedupe_filter seenSources [] = []"
| "dedupe_filter seenSources (r # rs) =
     (if source_id (row r) \<in> seenSources then dedupe_filter seenSources rs
      else r # dedupe_filter (insert (source_id (row r)) seenSources) rs)"

text \<open>\<open>options.dedupeBySource !== false\<close>: only the value \<open>false\<close> turns the filter off.\<close>

definition search_filter :: "search_options \<Rightarrow> scored_row list \<Rightarrow> scored_row list" where
  "search_filter options results =
     (if dedupeBySource options \<noteq> Some False then dedupe_filter {} results else results)"

definition project :: "nat \<Rightarrow> scored_row \<Rightarrow> search_result" where
  "project maxChars r =
     \<lparr>o_sourceId = source_id (row r), o_title = title (row r), o_url = row_url (row r),
      o_sourceType = source_type (row r), o_content = take maxChars (row_content (row r)),
      o_similarity = similarity r, o_chunkIndex = chunk_index (row r)\<rparr>"

definition search_finish :: "search_options \<Rightarrow> scored_row list \<Rightarrow> search_result list" where
  "search_finish options results =
     map (project (or_default (maxCharsPerResult options) 2500))
         (take (or_default (topK options) 10) (search_filter options results))"

text \<open>
  The environment of one call of \<open>search\<close>: the world of the call that embeds the
  query, the scoring function, and \<open>this.db.vectorSearch\<close> when the database has one.
\<close>

record search_env =
  query_world :: world
  scoring :: "vec \<Rightarrow> vec \<Rightarrow> real"
  vectorSearch :: "(vec \<Rightarrow> nat \<Rightarrow> scored_row list) option"

definition search :: "rag \<Rightarrow> search_env \<Rightarrow> state \<Rightarrow> string \<Rightarrow> search_options
    \<Rightarrow> (error + search_result list) \<times> state" where
  "search r env st query options =
     (case embed (embedder r) (query_world env) (cache st) query of
        (Inl e, c') \<Rightarrow> (Inl e, st\<lparr>cache := c'\<rparr>)
      | (Inr q, c') \<Rightarrow>
         (let results =
                (case vectorSearch env of
                   Some vs \<Rightarrow> vs (embedding q) (or_default (topK options) 10 * 3)
                 | None \<Rightarrow> rank_in_memory (scoring env) (embedding q)
                             (getAllChunksWithEmbeddings (db st)))
          in (Inr (search_finish options results), st\<lparr>cache := c'\<rparr>)))"


section \<open>embeddings.js: cosineSimilarity\<close>

text \<open>
  \<open>cosineSimilarity(a, b)\<close> works on two arrays of numbers with \<open>+\<close>, \<open>*\<close>, \<open>/\<close>,
  \<open>Math.sqrt\<close>, the literal \<open>0\<close> and the test \<open>=== 0\<close>. These operations are a
  parameter of the function here, so that it can be read with the numbers of JavaScript
  and with exact numbers.
\<close>

record 'n arithmetic =
  add :: "'n \<Rightarrow> 'n \<Rightarrow> 'n"
  mul :: "'n \<Rightarrow> 'n \<Rightarrow> 'n"
  quot :: "'n \<Rightarrow> 'n \<Rightarrow> 'n"
  root :: "'n \<Rightarrow> 'n"
  num0 :: 'n
  eq0 :: "'n \<Rightarrow> bool"

text \<open>
  The \<open>for\<close> loop with its three accumulators. It is entered only when the two arrays
  have the same length, and then it runs over the pairs \<open>a[i]\<close>, \<open>b[i]\<close>.
\<close>

fun cosine_loop :: "'n arithmetic \<Rightarrow> 'n list \<Rightarrow> 'n list \<Rightarrow> 'n \<times> 'n \<times> 'n \<Rightarrow> 'n \<times> 'n \<times> 'n" where
  "cosine_loop A (x # a) (y # b) (dotProduct, normA, normB) =
     cosine_loop A a b (add A dotProduct (mul A x y), add A normA (mul A x x), add A normB (mul A y y))"
| "cosine_loop A a b acc = acc"

definition cosineSimilarity :: "'n arithmetic \<Rightarrow> 'n list \<Rightarrow> 'n list \<Rightarrow> 'n" where
  "cosineSimilarity A a b =
     (if length a \<noteq> length b then num0 A
      else let (dotProduct, normA, normB) = cosine_loop A a b (num0 A, num0 A, num0 A);
               denominator = mul A (root A normA) (root A normB)
           in if eq0 A denominator then num0 A else quot A dotProduct denominator)"

subsection \<open>The numbers of JavaScript\<close>


definition pow2 :: "int \<Rightarrow> real" where
  "pow2 k = (if 0 \<le> k then 2 ^ nat k else 1 / 2 ^ nat (- k))"


















section \<open>Predicates and sample inputs of the properties\<close>

subsection \<open>Chunk sizes\<close>

definition opt_chunkSize :: "chunk_options \<Rightarrow> nat" where
  "opt_chunkSize options = or_default (chunkSize options) DEFAULT_CHUNK_SIZE"

definition opt_overlap :: "chunk_options \<Rightarrow> nat" where
  "opt_overlap options = or_default (overlap options) DEFAULT_OVERLAP"

definition opt_minChunkSize :: "chunk_options \<Rightarrow> nat" where
  "opt_minChunkSize options = or_default (minChunkSize options) MIN_CHUNK_SIZE"

definition sentences_of :: "string \<Rightarrow> string list" where
  "sentences_of text = splitSentences (trim (collapse_ws text))"

text \<open>
  A closed chunk is within bound when it has at most \<open>cs\<close> characters, or when it is one
  sentence behind a prefix of at most \<open>ov\<close> characters (the overlap text; the prefix is
  empty for a sentence that stands alone). \<open>current_ok\<close> is the same for the running
  chunk, which is not trimmed yet.
\<close>

definition within_bound :: "nat \<Rightarrow> nat \<Rightarrow> string list \<Rightarrow> string \<Rightarrow> bool" where
  "within_bound cs ov S c =
     (length c \<le> cs \<or> (\<exists>s\<in>set S. \<exists>p. length p \<le> ov \<and> c = trim (p @ s)))"

definition current_ok :: "nat \<Rightarrow> nat \<Rightarrow> string list \<Rightarrow> string \<Rightarrow> bool" where
  "current_ok cs ov S c =
     (length c \<le> cs \<or> (\<exists>s\<in>set S. \<exists>p. length p \<le> ov \<and> c = p @ s))"

definition chunk_inv :: "nat \<Rightarrow> nat \<Rightarrow> string list \<Rightarrow> chunk_state \<Rightarrow> bool" where
  "chunk_inv cs ov S st =
     ((\<forall>c\<in>set (chunks st). within_bound cs ov S c) \<and> current_ok cs ov S (currentChunk st))"

definition small_options :: chunk_options where
  "small_options = \<lparr>chunkSize = Some 12, overlap = Some 1, minChunkSize = Some 5\<rparr>"

definition overlap_options :: chunk_options where
  "overlap_options = \<lparr>chunkSize = Some 10, overlap = Some 6, minChunkSize = Some 1\<rparr>"

subsection \<open>Rows for the ranking\<close>

definition sample_row :: "nat \<Rightarrow> nat \<Rightarrow> vec \<Rightarrow> joined_row" where
  "sample_row sid i e =
     \<lparr>source_id = sid, chunk_index = i, row_content = ''text'', row_embedding = e,
      title = ''title'', row_url = None, source_type = ''text''\<rparr>"

text \<open>A scoring function for examples: the first number of the stored vector.\<close>

definition first_component :: "vec \<Rightarrow> vec \<Rightarrow> real" where
  "first_component q e = (case e of [] \<Rightarrow> 0 | x # _ \<Rightarrow> x)"

definition default_search_options :: search_options where
  "default_search_options = \<lparr>topK = None, maxCharsPerResult = None, dedupeBySource = None\<rparr>"

subsection \<open>The uses of the cache\<close>

text \<open>
  The cache of the module is empty when the module is loaded, and only \<open>embed\<close> reads
  and writes it. A use of the cache is a call of \<open>embed\<close> (the configuration of the
  provider object, the world the call meets, the text) or a call of \<open>embedBatch\<close>;
  \<open>cache_run c uses\<close> is the cache after the uses in the list, made one after the other
  from the cache \<open>c\<close>. \<open>calls_of\<close> lists the calls of \<open>embed\<close> that a use can make.
\<close>

datatype cache_use =
    Single embed_config world string
  | Batch embed_config "nat \<Rightarrow> world" "nat \<Rightarrow> nat" "string list"

fun cache_run :: "embedding_cache \<Rightarrow> cache_use list \<Rightarrow> embedding_cache" where
  "cache_run c [] = c"
| "cache_run c (Single cfg w t # rest) = cache_run (snd (embed cfg w c t)) rest"
| "cache_run c (Batch cfg ws rc texts # rest) =
     cache_run (snd (embedBatch cfg ws rc c texts)) rest"

fun calls_of :: "cache_use \<Rightarrow> (embed_config \<times> world \<times> string) list" where
  "calls_of (Single cfg w t) = [(cfg, w, t)]"
| "calls_of (Batch cfg ws rc texts) = map (\<lambda>(i, t). (cfg, ws i, t)) (enumerate 0 texts)"

text \<open>
  One of the calls has the key \<open>k\<close> and obtained the result \<open>r\<close> from the services.
\<close>

definition stored_by :: "(embed_config \<times> world \<times> string) list \<Rightarrow> 32 word \<Rightarrow> embed_result \<Rightarrow> bool" where
  "stored_by calls k r =
     (\<exists>(cfg, w, t)\<in>set calls.
        cache_hash t (preferredProvider cfg) = k \<and> embed_fetch cfg w t = Inr r)"

text \<open>\<open>this.cache.has(key)\<close> for the key of a text.\<close>

definition cache_hit :: "embedding_cache \<Rightarrow> embed_config \<Rightarrow> string \<Rightarrow> bool" where
  "cache_hit c cfg text = (map_of c (cache_hash text (preferredProvider cfg)) \<noteq> None)"

subsection \<open>Sample inputs\<close>

text \<open>
  A platform for the examples: the parser on the two URLs of the specification, with the
  fields that \<open>new URL\<close> gives for them; no encoding is needed for the names and values
  that occur; a stand-in for the digest that keeps the content; no rounding, since the
  numbers of the sample vectors are 32-bit floats.
\<close>

definition sample_platform :: platform where
  "sample_platform =
     \<lparr>new_URL = (\<lambda>s.
         if s = ''https://x.com/a/b/?utm_source=x''
         then Some \<lparr>protocol = ''https:'', hostname = ''x.com'', port = [], pathname = ''/a/b/'',
                    searchParams = [(''utm_source'', ''x'')], hash = [],
                    blob_inner = None\<rparr>
         else if s = ''https://www.twitter.com/a/b''
         then Some \<lparr>protocol = ''https:'', hostname = ''www.twitter.com'', port = [],
                    pathname = ''/a/b'', searchParams = [], hash = [], blob_inner = None\<rparr>
         else None),
      form_encode = (\<lambda>s. s),
      sha256_hex = (\<lambda>c. ''sha256:'' @ c),
      to_float32 = (\<lambda>x. x)\<rparr>"

definition gemini_first :: embed_config where
  "gemini_first =
     \<lparr>preferredProvider = ''gemini'', geminiKey = Some ''g-key'', openaiKey = Some ''o-key''\<rparr>"

definition openai_first :: embed_config where
  "openai_first =
     \<lparr>preferredProvider = ''openai'', geminiKey = Some ''g-key'', openaiKey = Some ''o-key''\<rparr>"

text \<open>Worlds: OpenAI answers every call with an error; both services do; Gemini answers
  with a vector that depends on the text.\<close>

definition openai_down :: world where
  "openai_down a t n =
     (case a of Gemini \<Rightarrow> Vector [1] | OpenAI \<Rightarrow> Throws ''OpenAI API error: 500 - down'')"

definition all_down :: world where
  "all_down a t n =
     (case a of Gemini \<Rightarrow> Throws ''Gemini API error: 500 - down''
              | OpenAI \<Rightarrow> Throws ''OpenAI API error: 500 - down'')"

definition gemini_by_text :: world where
  "gemini_by_text a t n =
     (case a of Gemini \<Rightarrow> (if t = ''Aa'' then Vector [1] else Vector [2])
              | OpenAI \<Rightarrow> Throws ''OpenAI API error: 500 - down'')"

definition local_rag :: rag where
  "local_rag =
     \<lparr>backend = ''sqlite'',
      chunkOptions = \<lparr>chunkSize = Some 800, overlap = Some 200, minChunkSize = None\<rparr>,
      embedder = gemini_first\<rparr>"

definition supabase_rag :: rag where
  "supabase_rag = local_rag\<lparr>backend := ''supabase''\<rparr>"

text \<open>
  \<open>extract\<close> on an input of type \<open>text\<close> that is not the name of a file:
  \<open>extractText\<close>, then \<open>validateContent\<close> (the message of the first error without
  the count of characters).
\<close>

definition MAX_CONTENT_LENGTH :: nat where "MAX_CONTENT_LENGTH = 200000"
definition MIN_CONTENT_LENGTH :: nat where "MIN_CONTENT_LENGTH = 20"

definition ERROR_SIGNALS :: "string list" where
  "ERROR_SIGNALS = [''access denied'', ''captcha'', ''please enable javascript'',
     ''cloudflare'', ''404'', ''sign in'', ''blocked'', ''rate limit'']"

definition str_includes :: "string \<Rightarrow> string \<Rightarrow> bool" where
  "str_includes s pat = (indexOf_from 0 s pat \<ge> 0)"

definition text_extractor :: "string \<Rightarrow> string option \<Rightarrow> error + extracted" where
  "text_extractor input ty =
     (let content = take MAX_CONTENT_LENGTH input
      in if length content < MIN_CONTENT_LENGTH
         then Inl (ExtractionError ''Content too short'')
         else if length (filter (\<lambda>signal. str_includes (toLowerCase content) signal) ERROR_SIGNALS) \<ge> 2
         then Inl (ExtractionError ''Content appears to be an error page'')
         else Inr \<lparr>x_url = None,
                   x_title = take 50 input @ (if length input > 50 then ''...'' else []),
                   x_content = content, x_excerpt = take 200 input,
                   x_sourceType = ''text''\<rparr>)"

definition sample_text :: string where
  "sample_text = ''hello world, this is a note''"

definition sample_extracted :: extracted where
  "sample_extracted =
     \<lparr>x_url = None, x_title = sample_text, x_content = sample_text,
      x_excerpt = sample_text, x_sourceType = ''text''\<rparr>"

definition sample_env :: "world \<Rightarrow> ingest_env" where
  "sample_env w =
     \<lparr>clock = 1000000, extractor = text_extractor, worlds = (\<lambda>i. w), races = (\<lambda>i. 0)\<rparr>"

definition no_options :: ingest_options where
  "no_options = \<lparr>sourceType = None, tags = None, metadata = None\<rparr>"

definition empty_db :: database where
  "empty_db = \<lparr>sources = [], chunk_rows = [], next_id = 1\<rparr>"

definition one_source_db :: database where
  "one_source_db =
     \<lparr>sources = [\<lparr>s_id = 1, s_url = None, s_url_normalized = None, s_title = sample_text,
                   s_source_type = ''text'', s_summary = sample_text,
                   s_raw_content = sample_text, s_content_hash = ''sha256:'' @ sample_text,
                   s_tags = [], s_metadata = []\<rparr>],
      chunk_rows = [], next_id = 2\<rparr>"

definition state_of :: "database \<Rightarrow> real option \<Rightarrow> state" where
  "state_of d l = \<lparr>db = d, lockFile = l, cache = []\<rparr>"

text \<open>The texts that \<open>ingest\<close> passes to \<open>embedBatch\<close>.\<close>

definition chunk_texts :: "rag \<Rightarrow> extracted \<Rightarrow> string list" where
  "chunk_texts r ex = map content (createChunks (x_content ex) (chunkOptions r))"

subsection \<open>The calls of embed that embedBatch makes\<close>

text \<open>
  \<open>embedBatch\<close> calls \<open>embed\<close> once for every text. The calls of one group start together:
  each one looks its text up in the cache that the group found, before any call of the
  group has stored a result. \<open>group_cache\<close> is the cache that a group leaves and
  \<open>cache_at \<dots> k\<close> the cache that the group of text \<open>k\<close> finds, when all the groups
  before it have gone through.
\<close>

definition group_cache :: "embed_config \<Rightarrow> (nat \<Rightarrow> world) \<Rightarrow> nat \<Rightarrow> embedding_cache \<Rightarrow> string list
    \<Rightarrow> embedding_cache" where
  "group_cache cfg ws i c batch =
     (let (cached, c1) = group_lookups cfg c batch
      in snd (group_fetches cfg ws i c1 (zip batch cached)))"

function cache_at :: "embed_config \<Rightarrow> (nat \<Rightarrow> world) \<Rightarrow> nat \<Rightarrow> embedding_cache \<Rightarrow> string list
    \<Rightarrow> nat \<Rightarrow> embedding_cache" where
  "cache_at cfg ws i c texts k =
     (if k < i + BATCH_SIZE then c
      else cache_at cfg ws (i + BATCH_SIZE)
             (group_cache cfg ws i c (take BATCH_SIZE (drop i texts))) texts k)"
  by pat_completeness auto
termination
  by (relation "measure (\<lambda>(cfg, ws, i, c, texts, k). k - i)") (auto simp: BATCH_SIZE_def)

declare cache_at.simps [simp del]

text \<open>
  The outcome of the call of \<open>embed\<close> that \<open>ingest\<close> makes for chunk \<open>k\<close>: the
  embedding, or the error that the call throws.
\<close>

definition chunk_call :: "rag \<Rightarrow> ingest_env \<Rightarrow> state \<Rightarrow> extracted \<Rightarrow> nat \<Rightarrow> error + embed_result" where
  "chunk_call r env st ex k =
     fst (embed (embedder r) (worlds env k)
            (cache_at (embedder r) (worlds env) 0 (cache st) (chunk_texts r ex) k)
            (chunk_texts r ex ! k))"


text \<open>
  A text of two sentences and a configuration that makes one chunk of each; a world where
  both services fail for the second sentence only, and one where Gemini answers the two
  sentences with different vectors.
\<close>

definition two_text :: string where
  "two_text = ''First sentence here. Second sentence here.''"

definition two_extracted :: extracted where
  "two_extracted =
     \<lparr>x_url = None, x_title = two_text, x_content = two_text,
      x_excerpt = two_text, x_sourceType = ''text''\<rparr>"

definition two_rag :: rag where
  "two_rag =
     local_rag\<lparr>chunkOptions := \<lparr>chunkSize = Some 25, overlap = Some 1, minChunkSize = Some 5\<rparr>\<rparr>"

definition second_fails :: world where
  "second_fails a t n =
     (if t = ''Second sentence here.''
      then (case a of Gemini \<Rightarrow> Throws ''Gemini API error: 500 - down''
                    | OpenAI \<Rightarrow> Throws ''OpenAI API error: 500 - down'')
      else Vector [1])"

definition second_other :: world where
  "second_other a t n =
     (case a of Gemini \<Rightarrow> (if t = ''Second sentence here.'' then Vector [2] else Vector [1])
              | OpenAI \<Rightarrow> Throws ''OpenAI API error: 500 - down'')"

subsection \<open>Dot product and norm\<close>






section \<open>Properties of the chunker\<close>

lemma length_trim_le: "length (trim s) \<le> length s"
  unfolding trim_def
  by (metis length_rev length_dropWhile_le le_trans)

lemma current_ok_trim: "current_ok cs ov S c \<Longrightarrow> within_bound cs ov S (trim c)"
  unfolding current_ok_def within_bound_def
  using length_trim_le [of c] by (auto intro: le_trans)

lemma overlap_loop_length:
  "length t \<le> ov \<Longrightarrow> length (fst (overlap_loop ov rs t ss)) \<le> ov"
  by (induction rs arbitrary: t ss) (auto simp: Let_def)

lemma chunk_step_inv:
  assumes "chunk_inv cs ov S st" and "s \<in> set S"
  shows "chunk_inv cs ov S (chunk_step cs ov mn st s)"
proof (cases "length (currentChunk st) + length s + 1 > cs")
  case True
  obtain t ss where o: "overlap_loop ov (rev (currentSentences st)) [] [] = (t, ss)"
    by (cases "overlap_loop ov (rev (currentSentences st)) [] []")
  have "length (fst (overlap_loop ov (rev (currentSentences st)) [] [])) \<le> ov"
    by (rule overlap_loop_length) simp
  with o have t: "length t \<le> ov" by simp
  have cur: "current_ok cs ov S (t @ s)"
    unfolding current_ok_def using t assms(2) by blast
  have old: "within_bound cs ov S (trim (currentChunk st))"
    using assms(1) current_ok_trim unfolding chunk_inv_def by blast
  show ?thesis
    using True o cur old assms(1)
    unfolding chunk_inv_def chunk_step_def by (auto simp: Let_def)
next
  case False
  then have "current_ok cs ov S
      (currentChunk st @ (if currentChunk st \<noteq> [] then '' '' else []) @ s)"
    unfolding current_ok_def by auto
  then show ?thesis
    using False assms(1) unfolding chunk_inv_def chunk_step_def by simp
qed

lemma chunk_loop_inv:
  "chunk_inv cs ov S st \<Longrightarrow> set xs \<subseteq> set S \<Longrightarrow>
   chunk_inv cs ov S (foldl (chunk_step cs ov mn) st xs)"
  by (induction xs arbitrary: st) (auto intro: chunk_step_inv)

lemma chunk_finish_bound:
  assumes inv: "chunk_inv cs ov S st" and i: "i < length (chunk_finish mn st)"
  shows "within_bound cs ov S (chunk_finish mn st ! i) \<or>
         (Suc i = length (chunk_finish mn st) \<and>
          (\<exists>c r. chunk_finish mn st ! i = c @ '' '' @ r \<and> within_bound cs ov S c \<and> length r < mn))"
proof -
  have all: "\<forall>c\<in>set (chunks st). within_bound cs ov S c"
    and cur: "within_bound cs ov S (trim (currentChunk st))"
    using inv current_ok_trim unfolding chunk_inv_def by blast+
  consider (a) "length (currentChunk st) \<ge> mn"
    | (b) "length (currentChunk st) < mn" "chunks st \<noteq> []" "currentChunk st \<noteq> []"
    | (c) "length (currentChunk st) < mn" "chunks st = []" "currentChunk st \<noteq> []"
    | (d) "length (currentChunk st) < mn" "currentChunk st = []"
    by fastforce
  then show ?thesis
  proof cases
    case a
    then have "chunk_finish mn st = chunks st @ [trim (currentChunk st)]"
      by (simp add: chunk_finish_def)
    moreover have "\<forall>c\<in>set (chunks st @ [trim (currentChunk st)]). within_bound cs ov S c"
      using all cur by simp
    ultimately show ?thesis using i by (metis nth_mem)
  next
    case b
    then have eq: "chunk_finish mn st =
        butlast (chunks st) @ [last (chunks st) @ '' '' @ trim (currentChunk st)]"
      by (simp add: chunk_finish_def)
    show ?thesis
    proof (cases "i < length (butlast (chunks st))")
      case True
      then have "chunk_finish mn st ! i = butlast (chunks st) ! i"
        by (simp add: eq nth_append)
      moreover have "butlast (chunks st) ! i \<in> set (chunks st)"
        using True by (metis in_set_butlastD nth_mem)
      ultimately show ?thesis using all by simp
    next
      case False
      with i have ii: "i = length (butlast (chunks st))" by (simp add: eq)
      then have "chunk_finish mn st ! i = last (chunks st) @ '' '' @ trim (currentChunk st)"
        by (simp add: eq nth_append)
      moreover have "within_bound cs ov S (last (chunks st))"
        using all b(2) by simp
      moreover have "length (trim (currentChunk st)) < mn"
        using b(1) length_trim_le [of "currentChunk st"] by simp
      moreover have "Suc i = length (chunk_finish mn st)" by (simp add: eq ii)
      ultimately show ?thesis by blast
    qed
  next
    case c
    then have "chunk_finish mn st = [trim (currentChunk st)]"
      by (simp add: chunk_finish_def)
    then show ?thesis using i cur by simp
  next
    case d
    then have "chunk_finish mn st = chunks st"
      by (auto simp add: chunk_finish_def)
    then show ?thesis using i all by simp
  qed
qed

text \<open>
  C5, as stated: every chunk of \<open>chunkText\<close> has at most \<open>chunkSize\<close> characters unless
  it is a single sentence longer than \<open>chunkSize\<close>. This fails in two ways. With
  \<open>chunkSize = 12\<close>, \<open>overlap = 1\<close> and \<open>minChunkSize = 5\<close> the first text below is
  cut after its first sentence; the second sentence is shorter than \<open>minChunkSize\<close> and
  is appended to the chunk that was closed because the sentence did not fit: the only chunk
  has 14 characters and holds both sentences. With \<open>chunkSize = 10\<close>, \<open>overlap = 6\<close>
  and \<open>minChunkSize = 1\<close> the second chunk of the second text is the overlap text
  \<open>aaaa.\<close> and the next sentence: 14 characters, two sentences.
\<close>

theorem chunkText_exceeds_chunkSize:
  "chunkText ''aaaaaaaaa. bb.'' small_options = [''aaaaaaaaa. bb.'']
   \<and> sentences_of ''aaaaaaaaa. bb.'' = [''aaaaaaaaa.'', ''bb.'']
   \<and> opt_chunkSize small_options = 12
   \<and> \<not> length (chunkText ''aaaaaaaaa. bb.'' small_options ! 0) \<le> opt_chunkSize small_options
   \<and> chunkText ''aaaaaaaaa. bb.'' small_options ! 0 \<notin> set (sentences_of ''aaaaaaaaa. bb.'')
   \<and> chunkText ''aaaa. bbbbbbb. cc.'' overlap_options = [''aaaa.'', ''aaaa. bbbbbbb.'', ''cc.'']
   \<and> sentences_of ''aaaa. bbbbbbb. cc.'' = [''aaaa.'', ''bbbbbbb.'', ''cc.'']
   \<and> opt_chunkSize overlap_options = 10"
  by (simp add: chunkText_def small_options_def overlap_options_def sentences_of_def
      opt_chunkSize_def or_default_def trim_def is_ws_def splitSentences_def is_terminal_def
      chunk_step_def chunk_finish_def)

text \<open>
  C5, amended: every chunk of \<open>chunkText\<close> has at most \<open>chunkSize\<close> characters, or is a
  single sentence behind an overlap text of at most \<open>overlap\<close> characters (a sentence
  alone when the overlap text is empty); the last chunk may besides be such a chunk
  followed by a space and a trailing fragment shorter than \<open>minChunkSize\<close>.
\<close>

theorem chunkText_length_bound:
  assumes "i < length (chunkText text options)"
  shows "within_bound (opt_chunkSize options) (opt_overlap options) (sentences_of text)
           (chunkText text options ! i)
         \<or> (Suc i = length (chunkText text options)
            \<and> (\<exists>c r. chunkText text options ! i = c @ '' '' @ r
                 \<and> within_bound (opt_chunkSize options) (opt_overlap options) (sentences_of text) c
                 \<and> length r < opt_minChunkSize options))"
proof (cases "length (trim (collapse_ws text)) \<le> opt_chunkSize options")
  case True
  then have "chunkText text options = [trim (collapse_ws text)]"
    by (simp add: chunkText_def opt_chunkSize_def)
  with assms True show ?thesis
    by (simp add: within_bound_def)
next
  case False
  let ?cs = "opt_chunkSize options" and ?ov = "opt_overlap options"
    and ?mn = "opt_minChunkSize options" and ?S = "sentences_of text"
  let ?st = "foldl (chunk_step ?cs ?ov ?mn)
    \<lparr>chunks = [], currentChunk = [], currentSentences = []\<rparr> ?S"
  have eq: "chunkText text options = chunk_finish ?mn ?st"
    using False
    by (simp add: chunkText_def opt_chunkSize_def opt_overlap_def opt_minChunkSize_def
        sentences_of_def Let_def)
  have "chunk_inv ?cs ?ov ?S \<lparr>chunks = [], currentChunk = [], currentSentences = []\<rparr>"
    by (simp add: chunk_inv_def current_ok_def)
  then have "chunk_inv ?cs ?ov ?S ?st"
    by (rule chunk_loop_inv) simp
  from chunk_finish_bound [OF this, of i ?mn] assms show ?thesis
    unfolding eq by simp
qed

theorem chunkText_length_bound_witness:
  "0 < length (chunkText ''aaaaaaaaa. bb.'' small_options)
   \<and> (within_bound (opt_chunkSize small_options) (opt_overlap small_options)
        (sentences_of ''aaaaaaaaa. bb.'') (chunkText ''aaaaaaaaa. bb.'' small_options ! 0)
      \<or> (Suc 0 = length (chunkText ''aaaaaaaaa. bb.'' small_options)
         \<and> (\<exists>c r. chunkText ''aaaaaaaaa. bb.'' small_options ! 0 = c @ '' '' @ r
              \<and> within_bound (opt_chunkSize small_options) (opt_overlap small_options)
                   (sentences_of ''aaaaaaaaa. bb.'') c
              \<and> length r < opt_minChunkSize small_options)))"
proof -
  have h: "0 < length (chunkText ''aaaaaaaaa. bb.'' small_options)"
    by (simp add: chunkText_def small_options_def or_default_def trim_def is_ws_def
        splitSentences_def is_terminal_def chunk_step_def chunk_finish_def)
  from chunkText_length_bound [OF h] h show ?thesis by blast
qed


section \<open>Properties of the embedding provider\<close>

text \<open>
  C3 says that \<open>embed\<close> tries Gemini as a last resort when OpenAI was preferred and
  failed, and that it fails with the error "no embedding available" and no other whenever
  no provider returns a non-empty vector. The comment \<open>// Try Gemini as last resort if
  OpenAI was preferred\<close> and the message \<open>... or all providers failed\<close> say the same,
  but the call to OpenAI is not inside \<open>try\<close>/\<open>catch\<close>, as the first call to Gemini
  is. With OpenAI preferred, both keys set and OpenAI answering each of the three attempts
  with an error, \<open>embed\<close> throws that error of OpenAI, although Gemini would return a
  vector; with Gemini preferred and both services down, \<open>embed\<close> throws the error of
  OpenAI as well.
\<close>

theorem embed_openai_error_escapes:
  "embed openai_first openai_down [] ''hello''
     = (Inl (ProviderError ''OpenAI API error: 500 - down''), [])
   \<and> retryWithBackoff (embedWithGemini openai_down ''hello'') MAX_RETRIES 0 = Inr (Some [1])
   \<and> embed gemini_first all_down [] ''hello''
     = (Inl (ProviderError ''OpenAI API error: 500 - down''), [])"
  by (simp add: embed_def cache_get_def embed_fetch_def openai_first_def gemini_first_def
      openai_down_def all_down_def truthy_def retryWithBackoff.simps MAX_RETRIES_def
      embedWithOpenAI_def embedWithGemini_def)

text \<open>
  What does hold of the chain: when Gemini is preferred and its three attempts fail, the
  result of \<open>embed\<close> after a cache miss is decided by the retry chain of OpenAI.
\<close>

lemma embed_fetch_gemini_exhausted:
  assumes "preferredProvider cfg = ''gemini''" and "truthy (geminiKey cfg)"
    and "truthy (openaiKey cfg)"
    and "retryWithBackoff (embedWithGemini w text) MAX_RETRIES 0 = Inl e"
  shows "embed_fetch cfg w text =
           (case retryWithBackoff (embedWithOpenAI w text) MAX_RETRIES 0 of
              Inl e' \<Rightarrow> Inl (ProviderError e')
            | Inr None \<Rightarrow> Inl NoEmbedding
            | Inr (Some v) \<Rightarrow>
                if v = [] then Inl NoEmbedding
                else Inr \<lparr>embedding = v, provider = Some ''openai'',
                          model = Some OPENAI_EMBEDDING_MODEL\<rparr>)"
  using assms by (simp add: embed_fetch_def split: sum.splits option.splits)

lemma set_map_set: "set (map_set k v ps) \<subseteq> insert (k, v) (set ps)"
  by (induction ps) auto

lemma set_map_delete: "set (map_delete k ps) \<subseteq> set ps"
  by (auto simp: map_delete_def)

lemma set_cache_get: "set (snd (cache_get c k)) \<subseteq> set c"
proof (cases "map_of c k")
  case None
  then show ?thesis by (simp add: cache_get_def)
next
  case (Some v)
  then have "(k, v) \<in> set c" by (rule map_of_SomeD)
  then show ?thesis
    using Some set_map_set [of k v "map_delete k c"] set_map_delete [of k c]
    by (auto simp: cache_get_def)
qed

lemma set_cache_set: "set (cache_set c k v) \<subseteq> insert (k, v) (set c)"
proof -
  let ?c1 = "if length c \<ge> CACHE_MAX_SIZE
             then (case c of [] \<Rightarrow> [] | p # _ \<Rightarrow> map_delete (fst p) c) else c"
  have "set ?c1 \<subseteq> set c"
  proof (cases c)
    case Nil
    then show ?thesis by simp
  next
    case (Cons p ps)
    then show ?thesis using set_map_delete [of "fst p" c] by auto
  qed
  then show ?thesis
    using set_map_set [of k v ?c1] unfolding cache_set_def by blast
qed

lemma cache_get_miss: "map_of c k = None \<Longrightarrow> cache_get c k = (None, c)"
  by (simp add: cache_get_def)

lemma cache_get_hit: "map_of c k = Some v \<Longrightarrow> fst (cache_get c k) = Some v"
  by (simp add: cache_get_def)

lemma embed_hit:
  "map_of c (cache_hash text (preferredProvider cfg)) = Some v \<Longrightarrow> fst (embed cfg w c text) = Inr v"
  by (simp add: embed_def cache_get_def Let_def)

lemma embed_entries:
  assumes "(k, r) \<in> set (snd (embed cfg w c t))"
  shows "(k, r) \<in> set c \<or> (k = cache_hash t (preferredProvider cfg) \<and> embed_fetch cfg w t = Inr r)"
proof (cases "map_of c (cache_hash t (preferredProvider cfg))")
  case (Some v)
  then have "snd (embed cfg w c t) = snd (cache_get c (cache_hash t (preferredProvider cfg)))"
    by (simp add: embed_def cache_get_def Let_def)
  with assms set_cache_get show ?thesis by fastforce
next
  case None
  note miss = cache_get_miss [OF None]
  show ?thesis
  proof (cases "embed_fetch cfg w t")
    case (Inl e)
    with assms miss show ?thesis by (simp add: embed_def Let_def)
  next
    case (Inr r')
    then have "snd (embed cfg w c t) = cache_set c (cache_hash t (preferredProvider cfg)) r'"
      using miss by (simp add: embed_def Let_def)
    with assms set_cache_set [of c "cache_hash t (preferredProvider cfg)" r'] Inr
    show ?thesis by auto
  qed
qed

lemma group_lookups_length:
  "group_lookups cfg c ts = (rs, c') \<Longrightarrow> length rs = length ts"
  by (induction ts arbitrary: c rs c') (auto simp: Let_def split: prod.splits)

lemma set_group_lookups: "set (snd (group_lookups cfg c ts)) \<subseteq> set c"
proof (induction ts arbitrary: c)
  case Nil
  then show ?case by simp
next
  case (Cons t ts)
  have "set (snd (group_lookups cfg (snd (cache_get c (cache_hash t (preferredProvider cfg)))) ts))
        \<subseteq> set (snd (cache_get c (cache_hash t (preferredProvider cfg))))"
    by (rule Cons.IH)
  also have "\<dots> \<subseteq> set c" by (rule set_cache_get)
  finally show ?case by (simp add: case_prod_beta)
qed

lemma group_fetches_entries:
  assumes "(k, r) \<in> set (snd (group_fetches cfg ws i c ps))"
  shows "(k, r) \<in> set c
         \<or> (\<exists>j<length ps. k = cache_hash (fst (ps ! j)) (preferredProvider cfg)
               \<and> embed_fetch cfg (ws (i + j)) (fst (ps ! j)) = Inr r)"
  using assms
proof (induction ps arbitrary: i c)
  case Nil
  then show ?case by simp
next
  case (Cons p ps)
  obtain t cached where p: "p = (t, cached)" by (cases p)
  let ?key = "cache_hash t (preferredProvider cfg)"
  have shift: "(\<exists>j<length ps. k = cache_hash (fst (ps ! j)) (preferredProvider cfg)
               \<and> embed_fetch cfg (ws (Suc i + j)) (fst (ps ! j)) = Inr r)
        \<Longrightarrow> (\<exists>j<length (p # ps). k = cache_hash (fst ((p # ps) ! j)) (preferredProvider cfg)
               \<and> embed_fetch cfg (ws (i + j)) (fst ((p # ps) ! j)) = Inr r)"
  proof -
    assume "\<exists>j<length ps. k = cache_hash (fst (ps ! j)) (preferredProvider cfg)
               \<and> embed_fetch cfg (ws (Suc i + j)) (fst (ps ! j)) = Inr r"
    then obtain j where "j < length ps" "k = cache_hash (fst (ps ! j)) (preferredProvider cfg)"
      "embed_fetch cfg (ws (Suc i + j)) (fst (ps ! j)) = Inr r" by blast
    then have "Suc j < length (p # ps) \<and> k = cache_hash (fst ((p # ps) ! Suc j)) (preferredProvider cfg)
               \<and> embed_fetch cfg (ws (i + Suc j)) (fst ((p # ps) ! Suc j)) = Inr r" by simp
    then show ?thesis by blast
  qed
  consider (hit) x where "cached = Some x"
    | (fail) e where "cached = None" "embed_fetch cfg (ws i) t = Inl e"
    | (ok) x where "cached = None" "embed_fetch cfg (ws i) t = Inr x"
    by (cases cached; cases "embed_fetch cfg (ws i) t") auto
  then show ?case
  proof cases
    case hit
    then have "snd (group_fetches cfg ws i c (p # ps)) = snd (group_fetches cfg ws (Suc i) c ps)"
      by (simp add: p case_prod_beta)
    with Cons.prems Cons.IH [of "Suc i" c] shift show ?thesis by auto
  next
    case fail
    then have "snd (group_fetches cfg ws i c (p # ps)) = snd (group_fetches cfg ws (Suc i) c ps)"
      by (simp add: p case_prod_beta)
    with Cons.prems Cons.IH [of "Suc i" c] shift show ?thesis by auto
  next
    case ok
    then have "snd (group_fetches cfg ws i c (p # ps))
        = snd (group_fetches cfg ws (Suc i) (cache_set c ?key x) ps)"
      by (simp add: p case_prod_beta)
    with Cons.prems Cons.IH [of "Suc i" "cache_set c ?key x"]
    have "(k, r) \<in> set (cache_set c ?key x)
          \<or> (\<exists>j<length ps. k = cache_hash (fst (ps ! j)) (preferredProvider cfg)
               \<and> embed_fetch cfg (ws (Suc i + j)) (fst (ps ! j)) = Inr r)" by simp
    then show ?thesis
    proof
      assume "(k, r) \<in> set (cache_set c ?key x)"
      with set_cache_set [of c ?key x] have "(k, r) = (?key, x) \<or> (k, r) \<in> set c" by auto
      then show ?thesis
      proof
        assume "(k, r) = (?key, x)"
        then have "0 < length (p # ps) \<and> k = cache_hash (fst ((p # ps) ! 0)) (preferredProvider cfg)
               \<and> embed_fetch cfg (ws (i + 0)) (fst ((p # ps) ! 0)) = Inr r"
          using ok by (simp add: p)
        then show ?thesis by blast
      next
        assume "(k, r) \<in> set c"
        then show ?thesis by simp
      qed
    next
      assume "\<exists>j<length ps. k = cache_hash (fst (ps ! j)) (preferredProvider cfg)
               \<and> embed_fetch cfg (ws (Suc i + j)) (fst (ps ! j)) = Inr r"
      from shift [OF this] show ?thesis by simp
    qed
  qed
qed

lemma embedBatch_from_entries:
  assumes "(k, r) \<in> set (snd (embedBatch_from cfg ws rc i c texts))"
  shows "(k, r) \<in> set c
         \<or> (\<exists>j<length texts. k = cache_hash (texts ! j) (preferredProvider cfg)
               \<and> embed_fetch cfg (ws j) (texts ! j) = Inr r)"
  using assms
proof (induction cfg ws rc i c texts rule: embedBatch_from.induct)
  case (1 cfg ws rc i c texts)
  show ?case
  proof (cases "i < length texts")
    case False
    with "1.prems" show ?thesis by (simp add: embedBatch_from.simps)
  next
    case True
    let ?batch = "take BATCH_SIZE (drop i texts)"
    obtain cached c1 where l: "group_lookups cfg c ?batch = (cached, c1)"
      by (cases "group_lookups cfg c ?batch")
    obtain outs c2 where f: "group_fetches cfg ws i c1 (zip ?batch cached) = (outs, c2)"
      by (cases "group_fetches cfg ws i c1 (zip ?batch cached)")
    have c1: "set c1 \<subseteq> set c"
      using set_group_lookups [of cfg c ?batch] l by simp
    have lc: "length cached = length ?batch"
      using group_lookups_length [OF l] by simp
    have c2: "(k, r) \<in> set c2 \<Longrightarrow> ?thesis"
    proof -
      assume "(k, r) \<in> set c2"
      then have "(k, r) \<in> set (snd (group_fetches cfg ws i c1 (zip ?batch cached)))"
        using f by simp
      from group_fetches_entries [OF this]
      show ?thesis
      proof
        assume "(k, r) \<in> set c1"
        with c1 show ?thesis by blast
      next
        assume "\<exists>j<length (zip ?batch cached).
                  k = cache_hash (fst (zip ?batch cached ! j)) (preferredProvider cfg)
                  \<and> embed_fetch cfg (ws (i + j)) (fst (zip ?batch cached ! j)) = Inr r"
        then obtain j where j: "j < length ?batch"
          and kj: "k = cache_hash (fst (zip ?batch cached ! j)) (preferredProvider cfg)"
          and ej: "embed_fetch cfg (ws (i + j)) (fst (zip ?batch cached ! j)) = Inr r"
          using lc by auto
        have "fst (zip ?batch cached ! j) = texts ! (i + j)"
          using j lc True by simp
        moreover have "i + j < length texts" using j by auto
        ultimately show ?thesis using kj ej by auto
      qed
    qed
    show ?thesis
    proof (cases "promise_all (rc i) outs")
      case (Inl e)
      then have "snd (embedBatch_from cfg ws rc i c texts) = c2"
        using True l f by (simp add: embedBatch_from.simps [of cfg ws rc i c texts])
      with "1.prems" c2 show ?thesis by simp
    next
      case (Inr batchResults)
      then have "snd (embedBatch_from cfg ws rc i c texts)
          = snd (embedBatch_from cfg ws rc (i + BATCH_SIZE) c2 texts)"
        using True l f
        by (simp add: embedBatch_from.simps [of cfg ws rc i c texts] split: prod.splits sum.splits)
      with "1.prems" "1.IH" [OF True refl refl l [symmetric] refl f [symmetric] Inr]
      have "(k, r) \<in> set c2
            \<or> (\<exists>j<length texts. k = cache_hash (texts ! j) (preferredProvider cfg)
               \<and> embed_fetch cfg (ws j) (texts ! j) = Inr r)" by simp
      with c2 show ?thesis by blast
    qed
  qed
qed

lemma cache_use_entries:
  assumes "(k, r) \<in> set (cache_run c [u])"
  shows "(k, r) \<in> set c \<or> stored_by (calls_of u) k r"
proof (cases u)
  case (Single cfg w t)
  with assms embed_entries [of k r cfg w c t] show ?thesis
    by (auto simp: stored_by_def)
next
  case (Batch cfg ws rc texts)
  with assms have "(k, r) \<in> set (snd (embedBatch_from cfg ws rc 0 c texts))"
    by (simp add: embedBatch_def)
  from embedBatch_from_entries [OF this] show ?thesis
  proof
    assume "(k, r) \<in> set c" then show ?thesis by simp
  next
    assume "\<exists>j<length texts. k = cache_hash (texts ! j) (preferredProvider cfg)
               \<and> embed_fetch cfg (ws j) (texts ! j) = Inr r"
    then obtain j where j: "j < length texts" "k = cache_hash (texts ! j) (preferredProvider cfg)"
      "embed_fetch cfg (ws j) (texts ! j) = Inr r" by blast
    then have "(cfg, ws j, texts ! j) \<in> set (calls_of u)"
      by (force simp: Batch in_set_enumerate_eq)
    with j show ?thesis by (auto simp: stored_by_def)
  qed
qed

lemma stored_by_append:
  "stored_by xs k r \<or> stored_by ys k r \<Longrightarrow> stored_by (xs @ ys) k r"
  by (auto simp: stored_by_def)

lemma cache_run_Cons: "cache_run c (u # us) = cache_run (cache_run c [u]) us"
  by (cases u) simp_all

lemma cache_run_entries:
  assumes "\<forall>(k, r)\<in>set c. stored_by before k r"
  shows "\<forall>(k, r)\<in>set (cache_run c uses). stored_by (before @ concat (map calls_of uses)) k r"
  using assms
proof (induction uses arbitrary: c before)
  case Nil
  then show ?case by simp
next
  case (Cons u uses)
  have "\<forall>(k, r)\<in>set (cache_run c [u]). stored_by (before @ calls_of u) k r"
  proof clarify
    fix k r assume "(k, r) \<in> set (cache_run c [u])"
    from cache_use_entries [OF this] Cons.prems show "stored_by (before @ calls_of u) k r"
      by (auto intro: stored_by_append)
  qed
  from Cons.IH [OF this] show ?case
    by (simp add: cache_run_Cons [of c u uses])
qed

text \<open>
  C9, as stated: the cache is keyed by the pair of preferred provider and text, and two
  distinct pairs never share an entry. This fails: the key is the 32-bit hash of
  \<open>provider:text\<close>, and \<open>gemini:Aa\<close> and \<open>gemini:BB\<close> have the same hash. After a
  call for \<open>Aa\<close>, a call for \<open>BB\<close> is a cache hit and returns the vector of
  \<open>Aa\<close>, not the one that Gemini gives for \<open>BB\<close>.
\<close>

theorem embed_cache_collision:
  "cache_hash ''Aa'' ''gemini'' = cache_hash ''BB'' ''gemini''
   \<and> embed gemini_first gemini_by_text
         (cache_run [] [Single gemini_first gemini_by_text ''Aa'']) ''BB''
       = (Inr \<lparr>embedding = [1], provider = Some ''gemini'',
                model = Some GEMINI_EMBEDDING_MODEL\<rparr>,
          [(cache_hash ''Aa'' ''gemini'',
            \<lparr>embedding = [1], provider = Some ''gemini'',
              model = Some GEMINI_EMBEDDING_MODEL\<rparr>)])
   \<and> embed_fetch gemini_first gemini_by_text ''BB''
       = Inr \<lparr>embedding = [2], provider = Some ''gemini'',
               model = Some GEMINI_EMBEDDING_MODEL\<rparr>"
  by (simp add: embed_def cache_get_def cache_set_def CACHE_MAX_SIZE_def embed_fetch_def
      gemini_first_def gemini_by_text_def truthy_def retryWithBackoff.simps MAX_RETRIES_def
      embedWithOpenAI_def embedWithGemini_def cache_hash_def map_delete_def
      MAX_INPUT_CHARS_def)

text \<open>
  C9, amended: the cache is keyed by the 32-bit hash of \<open>provider:text\<close>. After any
  uses of the cache from the empty cache, a cache hit in \<open>embed\<close> occurs for a text only
  if an earlier call of \<open>embed\<close>, with the same hash of its preferred provider and text,
  obtained a result from the services and stored it, and the hit returns exactly that
  result; pairs with different hashes never share an entry.
\<close>

theorem embed_cache_hit:
  assumes "cache_hit (cache_run [] uses) cfg text"
  shows "\<exists>r. fst (embed cfg w (cache_run [] uses) text) = Inr r
            \<and> stored_by (concat (map calls_of uses)) (cache_hash text (preferredProvider cfg)) r"
proof -
  from assms obtain r
    where r: "map_of (cache_run [] uses) (cache_hash text (preferredProvider cfg)) = Some r"
    by (auto simp: cache_hit_def)
  then have "(cache_hash text (preferredProvider cfg), r) \<in> set (cache_run [] uses)"
    by (rule map_of_SomeD)
  moreover have "\<forall>(k, r)\<in>set (cache_run [] uses).
      stored_by ([] @ concat (map calls_of uses)) k r"
    by (rule cache_run_entries) simp
  ultimately have "stored_by (concat (map calls_of uses))
      (cache_hash text (preferredProvider cfg)) r" by auto
  with embed_hit [OF r] show ?thesis by blast
qed

theorem embed_cache_hit_witness:
  "cache_hit (cache_run [] [Single gemini_first gemini_by_text ''Aa'']) gemini_first ''Aa''
   \<and> (\<exists>r. fst (embed gemini_first gemini_by_text
                 (cache_run [] [Single gemini_first gemini_by_text ''Aa'']) ''Aa'') = Inr r
           \<and> stored_by (concat (map calls_of [Single gemini_first gemini_by_text ''Aa'']))
                (cache_hash ''Aa'' (preferredProvider gemini_first)) r)"
proof -
  have h: "cache_hit (cache_run [] [Single gemini_first gemini_by_text ''Aa'']) gemini_first ''Aa''"
    by (simp add: cache_hit_def embed_def cache_get_def cache_set_def CACHE_MAX_SIZE_def
        embed_fetch_def gemini_first_def gemini_by_text_def truthy_def retryWithBackoff.simps
        MAX_RETRIES_def embedWithGemini_def)
  from embed_cache_hit [OF h] h show ?thesis by blast
qed

text \<open>Without a hit the result is the one of the services.\<close>

lemma embed_cache_miss:
  "\<not> cache_hit c cfg text \<Longrightarrow> fst (embed cfg w c text) = embed_fetch cfg w text"
  by (auto simp: cache_hit_def embed_def cache_get_def Let_def split: sum.splits)

section \<open>Properties of the database layer\<close>

text \<open>
  C4 says that \<open>https://x.com/a/b/?utm_source=x\<close> and \<open>https://www.twitter.com/a/b\<close>
  are normalised to the same key \<open>https://x.com/a/b\<close>. \<open>normalizeUrl\<close> makes both
  changes of the host (\<open>// Normalize twitter -> x\<close>, \<open>// Remove www\<close>), but it compares
  the host with \<open>twitter.com\<close> before it removes \<open>www.\<close>: the second URL becomes
  \<open>https://twitter.com/a/b\<close>, and the two keys differ.
\<close>

theorem normalizeUrl_www_twitter:
  "normalizeUrl sample_platform (Some ''https://x.com/a/b/?utm_source=x'')
     = Some ''https://x.com/a/b''
   \<and> normalizeUrl sample_platform (Some ''https://www.twitter.com/a/b'')
     = Some ''https://twitter.com/a/b''"
  by (simp add: normalizeUrl_def sample_platform_def trackingParams_def params_delete_def
      set_hostname_def strip_www_def strip_trailing_slash_def origin_def tuple_origin_def
      search_of_def
      toLowerCase_def lower_char_def)

lemma origin_nonempty: "origin u \<noteq> []"
  by (simp add: origin_def tuple_origin_def split: option.splits)

lemma normalizeUrl_nonempty: "normalizeUrl P u = Some n \<Longrightarrow> n \<noteq> []"
  by (auto simp: normalizeUrl_def toLowerCase_def origin_nonempty Let_def
      split: option.splits if_splits)

lemma acquireLock_keeps:
  "acquireLock r now st = Inr st1 \<Longrightarrow> db st1 = db st \<and> cache st1 = cache st"
  by (auto simp: acquireLock_def Let_def split: if_splits option.splits)

lemma releaseLock_keeps: "db (releaseLock r st) = db st \<and> cache (releaseLock r st) = cache st"
  by (simp add: releaseLock_def split: option.splits)

lemma sourceExists_finds:
  assumes "\<exists>s\<in>set (sources d).
             (normalizeUrl P u \<noteq> None \<and> s_url_normalized s = normalizeUrl P u)
             \<or> s_content_hash s = hashContent P c"
  shows "\<exists>s\<in>set (sources d).
           ((normalizeUrl P u \<noteq> None \<and> s_url_normalized s = normalizeUrl P u)
            \<or> s_content_hash s = hashContent P c)
           \<and> sourceExists P d u c = Some (s_id s)"
proof (cases "\<exists>s\<in>set (sources d). normalizeUrl P u \<noteq> None \<and> s_url_normalized s = normalizeUrl P u")
  case True
  then obtain n s0 where n: "normalizeUrl P u = Some n"
    and s0: "s0 \<in> set (sources d)" "s_url_normalized s0 = Some n" by auto
  from s0 have ex: "\<exists>s\<in>set (sources d). s_url_normalized s = Some n" by blast
  from n have ne: "n \<noteq> []" by (rule normalizeUrl_nonempty)
  from ex obtain s where s: "find (\<lambda>r. s_url_normalized r = Some n) (sources d) = Some s"
    by (cases "find (\<lambda>r. s_url_normalized r = Some n) (sources d)") (auto simp: find_None_iff)
  then have "s \<in> set (sources d)" and "s_url_normalized s = Some n"
    by (auto simp: find_Some_iff)
  moreover have "sourceExists P d u c = Some (s_id s)"
    using n ne s by (simp add: sourceExists_def)
  ultimately show ?thesis using n by auto
next
  case False
  with assms have ex: "\<exists>s\<in>set (sources d). s_content_hash s = hashContent P c" by blast
  then obtain s where s: "find (\<lambda>r. s_content_hash r = hashContent P c) (sources d) = Some s"
    by (cases "find (\<lambda>r. s_content_hash r = hashContent P c) (sources d)") (auto simp: find_None_iff)
  then have in_s: "s \<in> set (sources d)" and h: "s_content_hash s = hashContent P c"
    by (auto simp: find_Some_iff)
  have "find (\<lambda>r. s_url_normalized r = Some n) (sources d) = None" if "normalizeUrl P u = Some n" for n
    using False that by (auto simp: find_None_iff)
  then have "sourceExists P d u c = Some (s_id s)"
    using s by (auto simp: sourceExists_def split: option.splits)
  then show ?thesis using in_s h by blast
qed

section \<open>Properties of ingest\<close>

text \<open>The sample inputs: what the extractor, the chunker and the lock do on them.\<close>

lemma sample_extract: "extractor (sample_env w) sample_text ty = Inr sample_extracted"
  by (simp add: sample_env_def text_extractor_def sample_text_def sample_extracted_def
      MAX_CONTENT_LENGTH_def MIN_CONTENT_LENGTH_def ERROR_SIGNALS_def str_includes_def
      toLowerCase_def lower_char_def Let_def)

lemma sample_chunk_texts: "chunk_texts r0 sample_extracted = [sample_text]"
  if "chunkOptions r0 = \<lparr>chunkSize = Some 800, overlap = Some 200, minChunkSize = None\<rparr>"
  using that
  by (simp add: chunk_texts_def createChunks_def chunkText_def or_default_def
      sample_extracted_def sample_text_def trim_def is_ws_def)

lemma sample_lock_free:
  "acquireLock local_rag (clock (sample_env w)) (state_of d None)
     = Inr (state_of d (Some 1000000))"
  by (simp add: acquireLock_def isAsync_def local_rag_def sample_env_def state_of_def)

lemma sample_release: "releaseLock local_rag (state_of d (Some t)) = state_of d None"
  by (simp add: releaseLock_def isAsync_def local_rag_def state_of_def)

text \<open>
  C1: when the lock is acquired and the extractors return a result, and a source of the
  database has the normalised URL of that result (a URL, not \<open>null\<close>) or the hash of its
  content, \<open>ingest\<close> returns \<open>{status: 'duplicate', sourceId}\<close> with the id of such a
  source; the database and the embedding cache are as before the call (no chunk was made,
  no embedding was asked for, no row was written), and the lock is released.
\<close>

theorem ingest_duplicate:
  assumes lock: "acquireLock r (clock env) st = Inr st1"
    and ex: "extractor env input (sourceType options) = Inr ex"
    and dup: "\<exists>s\<in>set (sources (db st)).
                (normalizeUrl P (x_url ex) \<noteq> None
                 \<and> s_url_normalized s = normalizeUrl P (x_url ex))
                \<or> s_content_hash s = hashContent P (x_content ex)"
  shows "(\<exists>s\<in>set (sources (db st)).
            ((normalizeUrl P (x_url ex) \<noteq> None
              \<and> s_url_normalized s = normalizeUrl P (x_url ex))
             \<or> s_content_hash s = hashContent P (x_content ex))
            \<and> ingest P r env st input options = (Inr (Duplicate (s_id s)), releaseLock r st1))
         \<and> db (snd (ingest P r env st input options)) = db st
         \<and> cache (snd (ingest P r env st input options)) = cache st"
proof -
  from acquireLock_keeps [OF lock] have k: "db st1 = db st" "cache st1 = cache st" by simp_all
  from sourceExists_finds [OF dup] obtain s where s: "s \<in> set (sources (db st))"
    and m: "(normalizeUrl P (x_url ex) \<noteq> None
              \<and> s_url_normalized s = normalizeUrl P (x_url ex))
             \<or> s_content_hash s = hashContent P (x_content ex)"
    and e: "sourceExists P (db st) (x_url ex) (x_content ex) = Some (s_id s)" by blast
  have i: "ingest P r env st input options = (Inr (Duplicate (s_id s)), releaseLock r st1)"
    using lock ex e k by (simp add: ingest_def ingest_body_def)
  show ?thesis
    using s m i k releaseLock_keeps [of r st1] by auto
qed

theorem ingest_duplicate_witness:
  "ingest sample_platform local_rag (sample_env openai_down) (state_of one_source_db None)
     sample_text no_options
   = (Inr (Duplicate 1), state_of one_source_db None)"
proof -
  have lock: "acquireLock local_rag (clock (sample_env openai_down)) (state_of one_source_db None)
                = Inr (state_of one_source_db (Some 1000000))"
    by (rule sample_lock_free)
  have ex: "extractor (sample_env openai_down) sample_text (sourceType no_options)
              = Inr sample_extracted"
    by (rule sample_extract)
  have dup: "\<exists>s\<in>set (sources (db (state_of one_source_db None))).
               (normalizeUrl sample_platform (x_url sample_extracted) \<noteq> None
                \<and> s_url_normalized s = normalizeUrl sample_platform (x_url sample_extracted))
               \<or> s_content_hash s = hashContent sample_platform (x_content sample_extracted)"
    by (simp add: state_of_def one_source_db_def hashContent_def sample_platform_def
        sample_extracted_def)
  from ingest_duplicate [OF lock ex dup]
  show ?thesis
    by (simp add: sample_release) (simp add: state_of_def one_source_db_def)
qed

text \<open>
  The same for two calls in a row: when an \<open>ingest\<close> has succeeded, the next
  \<open>ingest\<close> for which the extractors return the same result is answered with
  \<open>duplicate\<close> and the id of the first, and adds no row.
\<close>

lemma find_append_new:
  "find p xs = None \<Longrightarrow> p y \<Longrightarrow> find p (xs @ [y]) = Some y"
  by (induction xs) (auto split: if_splits)

lemma sourceExists_NoneD:
  assumes "sourceExists P d u c = None"
  shows "find (\<lambda>r. s_content_hash r = hashContent P c) (sources d) = None"
    and "normalizeUrl P u = Some n \<Longrightarrow> find (\<lambda>r. s_url_normalized r = Some n) (sources d) = None"
proof -
  show "find (\<lambda>r. s_content_hash r = hashContent P c) (sources d) = None"
    using assms by (auto simp: sourceExists_def Let_def split: option.splits if_splits)
  assume n: "normalizeUrl P u = Some n"
  then have "n \<noteq> []" by (rule normalizeUrl_nonempty)
  with assms n show "find (\<lambda>r. s_url_normalized r = Some n) (sources d) = None"
    by (auto simp: sourceExists_def Let_def split: option.splits if_splits)
qed

lemma sourceExists_after_insert:
  assumes none: "sourceExists P d u c = None"
    and src: "sources d' = sources d @ [s]"
    and s: "s_url_normalized s = normalizeUrl P u" "s_content_hash s = hashContent P c"
  shows "sourceExists P d' u c = Some (s_id s)"
proof (cases "normalizeUrl P u")
  case None
  have "find (\<lambda>r. s_content_hash r = hashContent P c) (sources d') = Some s"
    unfolding src using sourceExists_NoneD(1) [OF none] s(2) by (rule find_append_new)
  with None show ?thesis by (simp add: sourceExists_def)
next
  case (Some n)
  then have ne: "n \<noteq> []" by (rule normalizeUrl_nonempty)
  have "find (\<lambda>r. s_url_normalized r = Some n) (sources d') = Some s"
    unfolding src using sourceExists_NoneD(2) [OF none Some] s(1) Some
    by (intro find_append_new) simp_all
  with Some ne show ?thesis by (simp add: sourceExists_def)
qed

lemma ingest_twice:
  assumes first: "ingest P r env st input options = (Inr (Success sid t ty n), st')"
    and same: "extractor env' input (sourceType options) = extractor env input (sourceType options)"
    and lock': "acquireLock r (clock env') st' = Inr st1'"
  shows "ingest P r env' st' input options = (Inr (Duplicate sid), releaseLock r st1')
         \<and> db (snd (ingest P r env' st' input options)) = db st'"
proof -
  from first obtain st1 where lock: "acquireLock r (clock env) st = Inr st1"
    by (cases "acquireLock r (clock env) st") (auto simp: ingest_def)
  from first lock obtain ex where ex: "extractor env input (sourceType options) = Inr ex"
    by (cases "extractor env input (sourceType options)")
       (auto simp: ingest_def ingest_body_def split: prod.splits)
  from acquireLock_keeps [OF lock] have k: "db st1 = db st" "cache st1 = cache st" by simp_all
  have none: "sourceExists P (db st) (x_url ex) (x_content ex) = None"
    using first lock ex k
    by (cases "sourceExists P (db st) (x_url ex) (x_content ex)")
       (auto simp: ingest_def ingest_body_def split: prod.splits)
  let ?chs = "createChunks (x_content ex) (chunkOptions r)"
  let ?inp = "\<lparr>i_url = x_url ex, i_title = x_title ex,
               i_sourceType = x_sourceType ex, i_summary = x_excerpt ex,
               i_rawContent = x_content ex,
               i_tags = (case tags options of None \<Rightarrow> [] | Some ts \<Rightarrow> ts),
               i_metadata = (case metadata options of None \<Rightarrow> [] | Some m \<Rightarrow> m)\<rparr>"
  obtain embedded c' where b:
    "embedBatch (embedder r) (worlds env) (races env) (cache st) (map content ?chs) = (embedded, c')"
    by (cases "embedBatch (embedder r) (worlds env) (races env) (cache st) (map content ?chs)")
  from first lock ex k none b obtain results where res: "embedded = Inr results"
    by (cases embedded) (auto simp: ingest_def ingest_body_def Let_def split: prod.splits)
  from first lock ex k none b res obtain d1 where ins: "insertSource P (db st) ?inp = Inr (sid, d1)"
    and st': "st' = releaseLock r (st1\<lparr>db := insertChunks P d1 sid (zip ?chs results), cache := c'\<rparr>)"
    by (cases "insertSource P (db st) ?inp")
       (auto simp: ingest_def ingest_body_def Let_def split: prod.splits)
  from ins obtain s where src: "sources d1 = sources (db st) @ [s]" and sid: "s_id s = sid"
    and s: "s_url_normalized s = normalizeUrl P (x_url ex)"
           "s_content_hash s = hashContent P (x_content ex)"
    by (auto simp: insertSource_def Let_def split: if_splits)
  have dbst': "db st' = insertChunks P d1 sid (zip ?chs results)"
    unfolding st' using releaseLock_keeps by simp
  then have "sources (db st') = sources (db st) @ [s]"
    using src by (simp add: insertChunks_def)
  from sourceExists_after_insert [OF none this s]
  have dup: "sourceExists P (db st') (x_url ex) (x_content ex) = Some sid"
    using sid by simp
  from acquireLock_keeps [OF lock'] have k': "db st1' = db st'" by simp
  have "ingest P r env' st' input options = (Inr (Duplicate sid), releaseLock r st1')"
    using lock' same ex dup k' by (simp add: ingest_def ingest_body_def)
  then show ?thesis using k' releaseLock_keeps [of r st1'] by simp
qed

lemma rejections_empty_iff: "(rejections outs = []) = (\<forall>out\<in>set outs. \<exists>x. out = Inr x)"
  by (induction outs rule: rejections.induct) auto

lemma fulfilled_length: "rejections outs = [] \<Longrightarrow> length (fulfilled outs) = length outs"
  by (induction outs rule: rejections.induct) auto

lemma fulfilled_nth:
  "rejections outs = [] \<Longrightarrow> j < length outs \<Longrightarrow> outs ! j = Inr (fulfilled outs ! j)"
proof (induction outs arbitrary: j rule: rejections.induct)
  case (3 x rest)
  then show ?case by (cases j) auto
qed auto

lemma promise_all_Inr: "promise_all n outs = Inr xs \<Longrightarrow> rejections outs = [] \<and> xs = fulfilled outs"
  by (auto simp: promise_all_def split: list.splits)

lemma promise_all_length: "promise_all n outs = Inr xs \<Longrightarrow> length xs = length outs"
  using promise_all_Inr fulfilled_length by blast

lemma promise_all_Inr_iff:
  "(\<exists>xs. promise_all n outs = Inr xs) = (\<forall>out\<in>set outs. \<exists>x. out = Inr x)"
  unfolding rejections_empty_iff [symmetric]
  by (auto simp: promise_all_def split: list.splits)

text \<open>The rejection of \<open>Promise.all\<close> is the rejection of one of the calls.\<close>

lemma promise_all_Inl: "promise_all n outs = Inl e \<Longrightarrow> Inl e \<in> set outs"
proof -
  have mem: "set (rejections outs) = {e. Inl e \<in> set outs}" for outs :: "(error + 'a) list"
    by (induction outs rule: rejections.induct) auto
  assume "promise_all n outs = Inl e"
  then obtain e' es where r: "rejections outs = e' # es"
    and e: "e = (e' # es) ! (n mod length (e' # es))"
    by (auto simp: promise_all_def split: list.splits)
  have "n mod length (e' # es) < length (e' # es)" by simp
  then have "e \<in> set (e' # es)" unfolding e by (rule nth_mem)
  with r mem [of outs] show ?thesis by auto
qed

lemma group_fetches_length:
  "group_fetches cfg ws i c ps = (outs, c') \<Longrightarrow> length outs = length ps"
  by (induction ps arbitrary: i c outs c')
     (auto simp: Let_def split: prod.splits option.splits sum.splits)

text \<open>
  In a group, a call that misses the cache has the outcome of the services, and one
  failing call makes \<open>Promise.all\<close> reject.
\<close>

lemma group_fetches_Cons:
  "\<exists>c'. fst (group_fetches cfg ws i c ((t, cached) # rest))
        = (case cached of Some r \<Rightarrow> Inr r | None \<Rightarrow> embed_fetch cfg (ws i) t)
          # fst (group_fetches cfg ws (Suc i) c' rest)"
  by (cases cached; cases "embed_fetch cfg (ws i) t") (auto simp: case_prod_beta)

lemma group_fetches_nth:
  "j < length ps \<Longrightarrow>
   fst (group_fetches cfg ws i c ps) ! j
   = (case snd (ps ! j) of
        Some r \<Rightarrow> Inr r
      | None \<Rightarrow> embed_fetch cfg (ws (i + j)) (fst (ps ! j)))"
proof (induction ps arbitrary: i c j)
  case Nil
  then show ?case by simp
next
  case (Cons p ps)
  obtain t cached where p: "p = (t, cached)" by (cases p)
  from group_fetches_Cons [of cfg ws i c t cached ps] obtain c'
    where eq: "fst (group_fetches cfg ws i c (p # ps))
        = (case cached of Some r \<Rightarrow> Inr r | None \<Rightarrow> embed_fetch cfg (ws i) t)
          # fst (group_fetches cfg ws (Suc i) c' ps)"
    unfolding p by blast
  show ?case
  proof (cases j)
    case 0
    then show ?thesis unfolding eq by (simp add: p split: option.splits)
  next
    case (Suc k)
    with Cons.prems have k: "k < length ps" by simp
    show ?thesis
      unfolding eq using Cons.IH [OF k, of "Suc i" c'] Suc by (simp split: option.splits)
  qed
qed

lemma group_failure_rejects:
  assumes "j < length ps" and "snd (ps ! j) = None"
    and "embed_fetch cfg (ws (i + j)) (fst (ps ! j)) = Inl e"
  shows "\<exists>e'. promise_all n (fst (group_fetches cfg ws i c ps)) = Inl e'"
proof -
  have len: "length (fst (group_fetches cfg ws i c ps)) = length ps"
    by (cases "group_fetches cfg ws i c ps") (simp add: group_fetches_length)
  have "fst (group_fetches cfg ws i c ps) ! j = Inl e"
    using group_fetches_nth [OF assms(1), of cfg ws i c] assms(2,3) by simp
  then have "Inl e \<in> set (fst (group_fetches cfg ws i c ps))"
    using assms(1) len by (metis nth_mem)
  then have "\<not> (\<exists>xs. promise_all n (fst (group_fetches cfg ws i c ps)) = Inr xs)"
    unfolding promise_all_Inr_iff by auto
  then show ?thesis
    by (cases "promise_all n (fst (group_fetches cfg ws i c ps))") auto
qed

lemma embedBatch_from_length:
  "fst (embedBatch_from cfg ws rc i c texts) = Inr rs \<Longrightarrow> length rs = length texts - i"
proof (induction cfg ws rc i c texts arbitrary: rs rule: embedBatch_from.induct)
  case (1 cfg ws rc i c texts)
  show ?case
  proof (cases "i < length texts")
    case False
    with "1.prems" show ?thesis by (simp add: embedBatch_from.simps)
  next
    case True
    let ?batch = "take BATCH_SIZE (drop i texts)"
    obtain cached c1 where l: "group_lookups cfg c ?batch = (cached, c1)"
      by (cases "group_lookups cfg c ?batch")
    obtain outs c2 where f: "group_fetches cfg ws i c1 (zip ?batch cached) = (outs, c2)"
      by (cases "group_fetches cfg ws i c1 (zip ?batch cached)")
    have lc: "length cached = length ?batch"
      using group_lookups_length [OF l] by simp
    have lo: "length outs = length ?batch"
      using group_fetches_length [OF f] lc by simp
    show ?thesis
    proof (cases "promise_all (rc i) outs")
      case (Inl e)
      with "1.prems" True l f show ?thesis
        by (simp add: embedBatch_from.simps [of cfg ws rc i c texts])
    next
      case (Inr batchResults)
      obtain res c3 where r: "embedBatch_from cfg ws rc (i + BATCH_SIZE) c2 texts = (res, c3)"
        by (cases "embedBatch_from cfg ws rc (i + BATCH_SIZE) c2 texts")
      show ?thesis
      proof (cases res)
        case (Inl e)
        with "1.prems" True l f Inr r show ?thesis
          by (simp add: embedBatch_from.simps [of cfg ws rc i c texts])
      next
        case inr: (Inr results)
        have "length results = length texts - (i + BATCH_SIZE)"
          using "1.IH" [OF True refl refl l [symmetric] refl f [symmetric] Inr, of results] r inr
          by simp
        moreover have "rs = batchResults @ results"
          using "1.prems" True l f Inr r inr
          by (simp add: embedBatch_from.simps [of cfg ws rc i c texts])
        moreover have "length batchResults = length ?batch"
          using promise_all_length [OF Inr] lo by simp
        ultimately show ?thesis using True by (auto simp: min_def)
      qed
    qed
  qed
qed

lemma embedBatch_length:
  "fst (embedBatch cfg ws rc c texts) = Inr rs \<Longrightarrow> length rs = length texts"
  using embedBatch_from_length [of cfg ws rc 0 c texts rs] by (simp add: embedBatch_def)

lemma map_snd_enumerate_fun: "map (\<lambda>p. g (snd p)) (enumerate n zs) = map g zs"
  by (induction zs arbitrary: n) simp_all

lemma insertChunks_embeddings:
  assumes "length chs = length results"
  shows "map c_embedding (drop (length (chunk_rows d))
           (chunk_rows (insertChunks P d sid (zip chs results))))
         = map (\<lambda>r. Some (map (to_float32 P) (embedding r))) results"
proof -
  have "map c_embedding (drop (length (chunk_rows d))
          (chunk_rows (insertChunks P d sid (zip chs results))))
        = map (\<lambda>p. Some (map (to_float32 P) (embedding (snd (snd p)))))
            (enumerate 0 (zip chs results))"
    by (simp add: insertChunks_def case_prod_beta)
  also have "\<dots> = map (\<lambda>q. Some (map (to_float32 P) (embedding (snd q)))) (zip chs results)"
    by (rule map_snd_enumerate_fun)
  also have "\<dots> = map (\<lambda>r. Some (map (to_float32 P) (embedding r))) (map snd (zip chs results))"
    by (simp add: comp_def)
  also have "\<dots> = map (\<lambda>r. Some (map (to_float32 P) (embedding r))) results"
    using assms by simp
  finally show ?thesis .
qed

lemma insertSource_rows:
  "insertSource P d i = Inr (sid, d1) \<Longrightarrow>
   chunk_rows d1 = chunk_rows d \<and> length (sources d1) = Suc (length (sources d))"
  by (auto simp: insertSource_def Let_def split: if_splits)

lemma map_of_map_set: "map_of (map_set k v ps) = (map_of ps)(k \<mapsto> v)"
  by (induction ps) (auto simp: fun_eq_iff)

lemma map_of_map_delete: "map_of (map_delete k ps) = (map_of ps)(k := None)"
  by (induction ps) (auto simp: map_delete_def fun_eq_iff)

lemma map_of_cache_get: "map_of (snd (cache_get c k)) = map_of c"
  by (cases "map_of c k") (auto simp: cache_get_def map_of_map_set map_of_map_delete fun_eq_iff)

lemma fst_cache_get: "fst (cache_get c k) = map_of c k"
  by (cases "map_of c k") (auto simp: cache_get_def)

lemma group_lookups_nth:
  "j < length ts \<Longrightarrow>
   fst (group_lookups cfg c ts) ! j = map_of c (cache_hash (ts ! j) (preferredProvider cfg))"
proof (induction ts arbitrary: c j)
  case Nil
  then show ?case by simp
next
  case (Cons t ts)
  let ?g = "cache_get c (cache_hash t (preferredProvider cfg))"
  have eq: "fst (group_lookups cfg c (t # ts)) = fst ?g # fst (group_lookups cfg (snd ?g) ts)"
    by (simp add: case_prod_beta)
  show ?case
  proof (cases j)
    case 0
    then show ?thesis unfolding eq by (simp add: fst_cache_get)
  next
    case (Suc n)
    with Cons.prems have "n < length ts" by simp
    from Cons.IH [OF this, of "snd ?g"] Suc show ?thesis
      unfolding eq by (simp add: map_of_cache_get)
  qed
qed

lemma fst_embed:
  "fst (embed cfg w c t)
   = (case map_of c (cache_hash t (preferredProvider cfg)) of
        Some r \<Rightarrow> Inr r
      | None \<Rightarrow> embed_fetch cfg w t)"
  by (auto simp: embed_def cache_get_def Let_def split: option.splits sum.splits)

text \<open>The outcome of the call at position j of a group is the one of embed on the cache of the group's start.\<close>

lemma group_outcome:
  assumes l: "group_lookups cfg c batch = (cached, c1)"
    and f: "group_fetches cfg ws i c1 (zip batch cached) = (outs, c2)"
    and j: "j < length batch"
  shows "outs ! j = fst (embed cfg (ws (i + j)) c (batch ! j))"
proof -
  have lc: "length cached = length batch" using group_lookups_length [OF l] by simp
  have cj: "cached ! j = map_of c (cache_hash (batch ! j) (preferredProvider cfg))"
    using group_lookups_nth [OF j, of cfg c] l by simp
  have jj: "j < length (zip batch cached)" using j lc by simp
  have fz: "fst (zip batch cached ! j) = batch ! j" and sz: "snd (zip batch cached ! j) = cached ! j"
    using j lc by simp_all
  have "outs ! j = (case snd (zip batch cached ! j) of
                      Some r \<Rightarrow> Inr r
                    | None \<Rightarrow> embed_fetch cfg (ws (i + j)) (fst (zip batch cached ! j)))"
    using group_fetches_nth [OF jj, of cfg ws i c1] f by simp
  then show ?thesis
    unfolding fz sz cj fst_embed .
qed

lemma batch_call_succeeds:
  assumes "fst (embedBatch_from cfg ws rc i c texts) = Inr rs" and "i \<le> k" and "k < length texts"
  shows "fst (embed cfg (ws k) (cache_at cfg ws i c texts k) (texts ! k)) = Inr (rs ! (k - i))"
  using assms
proof (induction cfg ws rc i c texts arbitrary: rs rule: embedBatch_from.induct)
  case (1 cfg ws rc i c texts)
  from "1.prems" have True: "i < length texts" by simp
  let ?batch = "take BATCH_SIZE (drop i texts)"
  obtain cached c1 where l: "group_lookups cfg c ?batch = (cached, c1)"
    by (cases "group_lookups cfg c ?batch")
  obtain outs c2 where f: "group_fetches cfg ws i c1 (zip ?batch cached) = (outs, c2)"
    by (cases "group_fetches cfg ws i c1 (zip ?batch cached)")
  have lc: "length cached = length ?batch" using group_lookups_length [OF l] by simp
  have lo: "length outs = length ?batch" using group_fetches_length [OF f] lc by simp
  have gc: "group_cache cfg ws i c ?batch = c2" by (simp add: group_cache_def l f)
  obtain batchResults where pa: "promise_all (rc i) outs = Inr batchResults"
    using "1.prems"(1) True l f
    by (cases "promise_all (rc i) outs")
       (auto simp: embedBatch_from.simps [of cfg ws rc i c texts])
  obtain res c3 where r: "embedBatch_from cfg ws rc (i + BATCH_SIZE) c2 texts = (res, c3)"
    by (cases "embedBatch_from cfg ws rc (i + BATCH_SIZE) c2 texts")
  obtain results where res: "res = Inr results" and rs: "rs = batchResults @ results"
    using "1.prems"(1) True l f pa r
    by (cases res) (auto simp: embedBatch_from.simps [of cfg ws rc i c texts])
  have lb: "length batchResults = length ?batch" using promise_all_length [OF pa] lo by simp
  from promise_all_Inr [OF pa] have rj: "rejections outs = []" and bf: "batchResults = fulfilled outs"
    by simp_all
  show ?case
  proof (cases "k < i + BATCH_SIZE")
    case inside: True
    let ?j = "k - i"
    have j: "?j < length ?batch" using inside "1.prems"(2,3) by auto
    have tj: "?batch ! ?j = texts ! k" using j "1.prems"(2) True by simp
    have "outs ! ?j = fst (embed cfg (ws (i + ?j)) c (?batch ! ?j))"
      by (rule group_outcome [OF l f j])
    moreover have "outs ! ?j = Inr (batchResults ! ?j)"
      using fulfilled_nth [OF rj, of ?j] j lo bf by simp
    moreover have "cache_at cfg ws i c texts k = c"
      using inside by (simp add: cache_at.simps [of cfg ws i c texts k])
    moreover have "rs ! ?j = batchResults ! ?j"
      using j lb by (simp add: rs nth_append)
    ultimately show ?thesis using tj "1.prems"(2) by simp
  next
    case later: False
    have at: "cache_at cfg ws i c texts k = cache_at cfg ws (i + BATCH_SIZE) c2 texts k"
      using later gc by (simp add: cache_at.simps [of cfg ws i c texts k])
    have full: "length ?batch = BATCH_SIZE" using later "1.prems"(3) by auto
    have "fst (embed cfg (ws k) (cache_at cfg ws (i + BATCH_SIZE) c2 texts k) (texts ! k))
          = Inr (results ! (k - (i + BATCH_SIZE)))"
      using "1.IH" [OF True refl refl l [symmetric] refl f [symmetric] pa, of results]
        r res later "1.prems"(3) by simp
    moreover have "rs ! (k - i) = results ! (k - (i + BATCH_SIZE))"
      using later lb full by (simp add: rs nth_append)
    ultimately show ?thesis using at by simp
  qed
qed

lemma batch_error_is_call:
  assumes "fst (embedBatch_from cfg ws rc i c texts) = Inl e"
  shows "\<exists>k. i \<le> k \<and> k < length texts
             \<and> fst (embed cfg (ws k) (cache_at cfg ws i c texts k) (texts ! k)) = Inl e"
  using assms
proof (induction cfg ws rc i c texts rule: embedBatch_from.induct)
  case (1 cfg ws rc i c texts)
  have True: "i < length texts"
    using "1.prems" by (cases "i < length texts") (auto simp: embedBatch_from.simps [of cfg ws rc i c texts])
  let ?batch = "take BATCH_SIZE (drop i texts)"
  obtain cached c1 where l: "group_lookups cfg c ?batch = (cached, c1)"
    by (cases "group_lookups cfg c ?batch")
  obtain outs c2 where f: "group_fetches cfg ws i c1 (zip ?batch cached) = (outs, c2)"
    by (cases "group_fetches cfg ws i c1 (zip ?batch cached)")
  have lc: "length cached = length ?batch" using group_lookups_length [OF l] by simp
  have lo: "length outs = length ?batch" using group_fetches_length [OF f] lc by simp
  have gc: "group_cache cfg ws i c ?batch = c2" by (simp add: group_cache_def l f)
  show ?case
  proof (cases "promise_all (rc i) outs")
    case (Inl e')
    then have "e' = e"
      using "1.prems" True l f by (simp add: embedBatch_from.simps [of cfg ws rc i c texts])
    with Inl have "Inl e \<in> set outs" using promise_all_Inl by blast
    then obtain j where j: "j < length outs" and oj: "outs ! j = Inl e"
      by (auto simp: in_set_conv_nth)
    have jb: "j < length ?batch" using j lo by simp
    have "outs ! j = fst (embed cfg (ws (i + j)) c (?batch ! j))"
      by (rule group_outcome [OF l f jb])
    moreover have "?batch ! j = texts ! (i + j)" using jb True by simp
    moreover have "cache_at cfg ws i c texts (i + j) = c"
      using jb by (simp add: cache_at.simps [of cfg ws i c texts "i + j"])
    moreover have "i + j < length texts" using jb by auto
    ultimately have "i \<le> i + j \<and> i + j < length texts
        \<and> fst (embed cfg (ws (i + j)) (cache_at cfg ws i c texts (i + j)) (texts ! (i + j))) = Inl e"
      using oj by simp
    then show ?thesis by blast
  next
    case (Inr batchResults)
    then have "fst (embedBatch_from cfg ws rc (i + BATCH_SIZE) c2 texts) = Inl e"
      using "1.prems" True l f
      by (auto simp: embedBatch_from.simps [of cfg ws rc i c texts] split: prod.splits sum.splits)
    from "1.IH" [OF True refl refl l [symmetric] refl f [symmetric] Inr this]
    obtain k where k: "i + BATCH_SIZE \<le> k" "k < length texts"
      "fst (embed cfg (ws k) (cache_at cfg ws (i + BATCH_SIZE) c2 texts k) (texts ! k)) = Inl e"
      by blast
    have "cache_at cfg ws i c texts k = cache_at cfg ws (i + BATCH_SIZE) c2 texts k"
      using k(1) gc by (simp add: cache_at.simps [of cfg ws i c texts k])
    then have "i \<le> k \<and> k < length texts
        \<and> fst (embed cfg (ws k) (cache_at cfg ws i c texts k) (texts ! k)) = Inl e"
      using k by simp
    then show ?thesis by blast
  qed
qed

lemma batch_call_fails:
  assumes "i \<le> k" and "k < length texts"
    and "fst (embed cfg (ws k) (cache_at cfg ws i c texts k) (texts ! k)) = Inl e"
  shows "\<exists>e'. fst (embedBatch_from cfg ws rc i c texts) = Inl e'"
proof (cases "fst (embedBatch_from cfg ws rc i c texts)")
  case (Inl e')
  then show ?thesis by blast
next
  case (Inr rs)
  from batch_call_succeeds [OF Inr assms(1,2)] assms(3) show ?thesis by simp
qed


lemma two_extract: "extractor (sample_env w) two_text ty = Inr two_extracted"
  by (simp add: sample_env_def text_extractor_def two_text_def two_extracted_def
      MAX_CONTENT_LENGTH_def MIN_CONTENT_LENGTH_def ERROR_SIGNALS_def str_includes_def
      toLowerCase_def lower_char_def Let_def)

lemma two_chunk_texts:
  "chunk_texts two_rag two_extracted = [''First sentence here.'', ''Second sentence here.'']"
  by (simp add: chunk_texts_def createChunks_def chunkText_def or_default_def two_rag_def
      local_rag_def two_extracted_def two_text_def trim_def is_ws_def splitSentences_def
      is_terminal_def chunk_step_def chunk_finish_def)

lemma two_lock_free:
  "acquireLock two_rag (clock (sample_env w)) (state_of d None) = Inr (state_of d (Some 1000000))"
  by (simp add: acquireLock_def isAsync_def two_rag_def local_rag_def sample_env_def state_of_def)

lemma two_no_duplicate:
  "sourceExists sample_platform (db (state_of empty_db None)) (x_url two_extracted)
     (x_content two_extracted) = None"
  by (simp add: sourceExists_def normalizeUrl_def state_of_def empty_db_def two_extracted_def)

lemma two_calls_second_fails:
  "chunk_call two_rag (sample_env second_fails) (state_of empty_db None) two_extracted 0
     = Inr \<lparr>embedding = [1], provider = Some ''gemini'', model = Some ''text-embedding-004''\<rparr>"
  "chunk_call two_rag (sample_env second_fails) (state_of empty_db None) two_extracted (Suc 0)
     = Inl (ProviderError ''OpenAI API error: 500 - down'')"
  unfolding chunk_call_def two_chunk_texts
  by (simp_all add: cache_at.simps BATCH_SIZE_def embed_def cache_get_def cache_set_def embed_fetch_def
      two_rag_def local_rag_def gemini_first_def sample_env_def second_fails_def truthy_def
      retryWithBackoff.simps MAX_RETRIES_def embedWithOpenAI_def embedWithGemini_def
      state_of_def Let_def MAX_INPUT_CHARS_def GEMINI_EMBEDDING_MODEL_def)

lemma two_calls_second_other:
  "chunk_call two_rag (sample_env second_other) (state_of empty_db None) two_extracted 0
     = Inr \<lparr>embedding = [1], provider = Some ''gemini'', model = Some ''text-embedding-004''\<rparr>"
  "chunk_call two_rag (sample_env second_other) (state_of empty_db None) two_extracted (Suc 0)
     = Inr \<lparr>embedding = [2], provider = Some ''gemini'', model = Some ''text-embedding-004''\<rparr>"
  unfolding chunk_call_def two_chunk_texts
  by (simp_all add: cache_at.simps BATCH_SIZE_def embed_def cache_get_def cache_set_def embed_fetch_def
      two_rag_def local_rag_def gemini_first_def sample_env_def second_other_def truthy_def
      retryWithBackoff.simps MAX_RETRIES_def embedWithOpenAI_def embedWithGemini_def
      state_of_def Let_def MAX_INPUT_CHARS_def GEMINI_EMBEDDING_MODEL_def)

lemma two_ingest_succeeds:
  "fst (ingest sample_platform two_rag (sample_env second_other) (state_of empty_db None)
          two_text no_options)
     = Inr (Success 1 two_text ''text'' 2)"
  by (simp add: ingest_def ingest_body_def acquireLock_def isAsync_def two_rag_def
      local_rag_def sample_env_def state_of_def empty_db_def text_extractor_def no_options_def
      two_text_def MAX_CONTENT_LENGTH_def MIN_CONTENT_LENGTH_def ERROR_SIGNALS_def
      str_includes_def toLowerCase_def lower_char_def Let_def
      sourceExists_def normalizeUrl_def hashContent_def sample_platform_def releaseLock_def
      createChunks_def chunkText_def or_default_def trim_def is_ws_def embedBatch_def
      embedBatch_from.simps BATCH_SIZE_def promise_all_def cache_get_def embed_fetch_def
      gemini_first_def second_other_def truthy_def retryWithBackoff.simps MAX_RETRIES_def
      embedWithGemini_def insertSource_def LOCK_TIMEOUT_def splitSentences_def
      is_terminal_def chunk_step_def chunk_finish_def MAX_INPUT_CHARS_def)

text \<open>
  C2: when the lock is acquired, the extractors return a result and no source of the
  database is a duplicate of it, then (1) if the call of \<open>embed\<close> for one chunk fails
  (the text is not in the cache that its group finds and the services fail for it),
  \<open>ingest\<close> fails, with the error of a failing call of a chunk (which one, when several
  calls of a group fail, is for \<open>Promise.all\<close> to say), and the database is the one before
  the call: no source and no chunk has been stored, whatever the other calls did; (2) if
  \<open>embedBatch\<close> fails on the chunks of the content, \<open>ingest\<close> fails with the same
  error and the database is the one before the call; and (3) if \<open>ingest\<close> succeeds,
  \<open>embedBatch\<close> had returned one result for every chunk before, the result at position
  \<open>k\<close> being the outcome of the call of \<open>embed\<close> for chunk \<open>k\<close>, one source row has been
  added, and the chunk rows added carry the embeddings of these results in order, each
  number as the 32-bit float that \<open>insertChunks\<close> makes of it.
\<close>

theorem ingest_all_or_nothing:
  assumes lock: "acquireLock r (clock env) st = Inr st1"
    and ex: "extractor env input (sourceType options) = Inr ex"
    and nodup: "sourceExists P (db st) (x_url ex) (x_content ex) = None"
  shows "(\<forall>k e. k < length (chunk_texts r ex) \<and> chunk_call r env st ex k = Inl e
            \<longrightarrow> (\<exists>k' e'. k' < length (chunk_texts r ex) \<and> chunk_call r env st ex k' = Inl e'
                     \<and> fst (ingest P r env st input options) = Inl e')
                \<and> db (snd (ingest P r env st input options)) = db st)
       \<and> (\<forall>e. fst (embedBatch (embedder r) (worlds env) (races env) (cache st) (chunk_texts r ex)) = Inl e
            \<longrightarrow> fst (ingest P r env st input options) = Inl e
                \<and> db (snd (ingest P r env st input options)) = db st)
       \<and> (\<forall>sid t ty n. fst (ingest P r env st input options) = Inr (Success sid t ty n)
            \<longrightarrow> (\<exists>results.
                   fst (embedBatch (embedder r) (worlds env) (races env) (cache st) (chunk_texts r ex)) = Inr results
                   \<and> length results = length (chunk_texts r ex)
                   \<and> n = length (chunk_texts r ex)
                   \<and> (\<forall>k<length (chunk_texts r ex). chunk_call r env st ex k = Inr (results ! k))
                   \<and> length (sources (db (snd (ingest P r env st input options))))
                       = Suc (length (sources (db st)))
                   \<and> map c_embedding (drop (length (chunk_rows (db st)))
                         (chunk_rows (db (snd (ingest P r env st input options)))))
                       = map (\<lambda>r. Some (map (to_float32 P) (embedding r))) results))"
proof -
  from acquireLock_keeps [OF lock] have k: "db st1 = db st" "cache st1 = cache st" by simp_all
  let ?chs = "createChunks (x_content ex) (chunkOptions r)"
  let ?texts = "chunk_texts r ex"
  let ?batch = "embedBatch (embedder r) (worlds env) (races env) (cache st) ?texts"
  have texts: "?texts = map content ?chs" by (simp add: chunk_texts_def)
  obtain embedded c' where b: "?batch = (embedded, c')" by (cases ?batch)
  have b': "embedBatch (embedder r) (worlds env) (races env) (cache st) (map content ?chs)
              = (embedded, c')"
    using b texts by simp
  have calls_ok: "chunk_call r env st ex j = Inr (results ! j)"
    if "embedded = Inr results" and "j < length ?texts" for results j
  proof -
    have "fst (embedBatch_from (embedder r) (worlds env) (races env) 0 (cache st) ?texts) = Inr results"
      using b that(1) by (simp add: embedBatch_def)
    from batch_call_succeeds [OF this _ that(2)] show ?thesis
      by (simp add: chunk_call_def)
  qed
  have call_of_error: "\<exists>j. j < length ?texts \<and> chunk_call r env st ex j = Inl e"
    if "embedded = Inl e" for e
  proof -
    have "fst (embedBatch_from (embedder r) (worlds env) (races env) 0 (cache st) ?texts) = Inl e"
      using b that by (simp add: embedBatch_def)
    from batch_error_is_call [OF this] show ?thesis
      by (auto simp: chunk_call_def)
  qed
  show ?thesis
  proof (cases embedded)
    case (Inl e)
    have i: "ingest P r env st input options = (Inl e, releaseLock r (st1\<lparr>cache := c'\<rparr>))"
      using lock ex nodup k b' Inl by (simp add: ingest_def ingest_body_def Let_def)
    have d: "db (snd (ingest P r env st input options)) = db st"
      using i k releaseLock_keeps [of r "st1\<lparr>cache := c'\<rparr>"] by simp
    from call_of_error [OF Inl] obtain j where j: "j < length ?texts" "chunk_call r env st ex j = Inl e"
      by blast
    have one: "\<exists>k' e'. k' < length ?texts \<and> chunk_call r env st ex k' = Inl e'
                 \<and> fst (ingest P r env st input options) = Inl e'"
      using j i by auto
    have two: "fst ?batch = Inl e" using b Inl by simp
    have three: "fst (ingest P r env st input options) \<noteq> Inr (Success sid t ty n)" for sid t ty n
      using i by simp
    show ?thesis
      using one two three d i by simp
  next
    case (Inr results)
    have len: "length results = length ?chs"
      using embedBatch_length [of "embedder r" "worlds env" "races env" "cache st" "map content ?chs" results]
        b' Inr by simp
    have nofail: "\<not> (j < length ?texts \<and> chunk_call r env st ex j = Inl e)" for j e
      using calls_ok [OF Inr, of j] by auto
    have two: "fst ?batch \<noteq> Inl e" for e using b Inr by simp
    let ?inp = "\<lparr>i_url = x_url ex, i_title = x_title ex,
                 i_sourceType = x_sourceType ex, i_summary = x_excerpt ex,
                 i_rawContent = x_content ex,
                 i_tags = (case tags options of None \<Rightarrow> [] | Some ts \<Rightarrow> ts),
                 i_metadata = (case metadata options of None \<Rightarrow> [] | Some m \<Rightarrow> m)\<rparr>"
    show ?thesis
    proof (cases "insertSource P (db st) ?inp")
      case (Inl e)
      have "ingest P r env st input options = (Inl e, releaseLock r (st1\<lparr>cache := c'\<rparr>))"
        using lock ex nodup k b' Inr Inl by (simp add: ingest_def ingest_body_def Let_def)
      then have three: "fst (ingest P r env st input options) \<noteq> Inr (Success sid t ty n)" for sid t ty n
        by simp
      show ?thesis using nofail two three by blast
    next
      case ins: (Inr p)
      obtain sid d1 where p: "p = (sid, d1)" by (cases p)
      have i: "ingest P r env st input options =
          (Inr (Success sid (x_title ex) (x_sourceType ex) (length ?chs)),
           releaseLock r (st1\<lparr>db := insertChunks P d1 sid (zip ?chs results), cache := c'\<rparr>))"
        using lock ex nodup k b' Inr ins p by (simp add: ingest_def ingest_body_def Let_def)
      have d: "db (snd (ingest P r env st input options)) = insertChunks P d1 sid (zip ?chs results)"
        using i releaseLock_keeps [of r "st1\<lparr>db := insertChunks P d1 sid (zip ?chs results), cache := c'\<rparr>"]
        by simp
      from insertSource_rows [OF ins [unfolded p]]
      have r1: "chunk_rows d1 = chunk_rows (db st)"
        and r2: "length (sources d1) = Suc (length (sources (db st)))" by simp_all
      have e: "map c_embedding (drop (length (chunk_rows (db st)))
                 (chunk_rows (insertChunks P d1 sid (zip ?chs results))))
               = map (\<lambda>r. Some (map (to_float32 P) (embedding r))) results"
        using insertChunks_embeddings [of ?chs results d1 P sid] len r1 by simp
      have s: "sources (insertChunks P d1 sid (zip ?chs results)) = sources d1"
        by (simp add: insertChunks_def)
      have calls: "\<forall>j<length ?texts. chunk_call r env st ex j = Inr (results ! j)"
        using calls_ok [OF Inr] by blast
      have three: "\<exists>results.
             fst ?batch = Inr results
             \<and> length results = length ?texts
             \<and> length ?chs = length ?texts
             \<and> (\<forall>k<length ?texts. chunk_call r env st ex k = Inr (results ! k))
             \<and> length (sources (db (snd (ingest P r env st input options))))
                 = Suc (length (sources (db st)))
             \<and> map c_embedding (drop (length (chunk_rows (db st)))
                   (chunk_rows (db (snd (ingest P r env st input options)))))
                 = map (\<lambda>r. Some (map (to_float32 P) (embedding r))) results"
        using b Inr len texts calls d e s r2 by (intro exI [of _ results]) simp
      show ?thesis
        using nofail two three i by auto
    qed
  qed
qed


theorem ingest_all_or_nothing_witness:
  "fst (ingest sample_platform two_rag (sample_env second_fails) (state_of empty_db None)
          two_text no_options)
     = Inl (ProviderError ''OpenAI API error: 500 - down'')
   \<and> db (snd (ingest sample_platform two_rag (sample_env second_fails) (state_of empty_db None)
                two_text no_options)) = empty_db
   \<and> fst (ingest sample_platform two_rag (sample_env second_other) (state_of empty_db None)
            two_text no_options)
       = Inr (Success 1 two_text ''text'' 2)
   \<and> length (sources (db (snd (ingest sample_platform two_rag (sample_env second_other)
                                  (state_of empty_db None) two_text no_options)))) = 1
   \<and> map c_embedding (chunk_rows (db (snd (ingest sample_platform two_rag (sample_env second_other)
                                             (state_of empty_db None) two_text no_options))))
       = [Some [1], Some [2]]"
proof -
  let ?st = "state_of empty_db None"
  let ?bad = "ingest sample_platform two_rag (sample_env second_fails) ?st two_text no_options"
  let ?good = "ingest sample_platform two_rag (sample_env second_other) ?st two_text no_options"
  have len: "length (chunk_texts two_rag two_extracted) = 2" by (simp add: two_chunk_texts)
  note bad = ingest_all_or_nothing [where options = no_options,
      OF two_lock_free [of second_fails empty_db]
         two_extract [of second_fails "sourceType no_options"] two_no_duplicate]
  note good = ingest_all_or_nothing [where options = no_options,
      OF two_lock_free [of second_other empty_db]
         two_extract [of second_other "sourceType no_options"] two_no_duplicate]
  have "Suc 0 < length (chunk_texts two_rag two_extracted)
        \<and> chunk_call two_rag (sample_env second_fails) ?st two_extracted (Suc 0)
            = Inl (ProviderError ''OpenAI API error: 500 - down'')"
    using two_calls_second_fails(2) len by simp
  with bad [THEN conjunct1, rule_format, of "Suc 0" "ProviderError ''OpenAI API error: 500 - down''"]
  have f: "(\<exists>k' e'. k' < 2
              \<and> chunk_call two_rag (sample_env second_fails) ?st two_extracted k' = Inl e'
              \<and> fst ?bad = Inl e')"
    and d: "db (snd ?bad) = db ?st"
    using len by simp_all
  from f obtain k' e' where k': "k' < 2"
    and c: "chunk_call two_rag (sample_env second_fails) ?st two_extracted k' = Inl e'"
    and i: "fst ?bad = Inl e'" by blast
  from k' have "k' = 0 \<or> k' = Suc 0" by auto
  with c two_calls_second_fails have "e' = ProviderError ''OpenAI API error: 500 - down''"
    by auto
  with i have one: "fst ?bad = Inl (ProviderError ''OpenAI API error: 500 - down'')" by simp
  from d have two: "db (snd ?bad) = empty_db" by (simp add: state_of_def)
  from good [THEN conjunct2, THEN conjunct2, rule_format, OF two_ingest_succeeds]
  obtain results where
    l: "length results = 2"
    and calls: "\<forall>k<2. chunk_call two_rag (sample_env second_other) ?st two_extracted k = Inr (results ! k)"
    and src: "length (sources (db (snd ?good))) = Suc (length (sources (db ?st)))"
    and emb: "map c_embedding (drop (length (chunk_rows (db ?st))) (chunk_rows (db (snd ?good))))
                = map (\<lambda>r. Some (map (to_float32 sample_platform) (embedding r))) results"
    using len by auto
  from calls two_calls_second_other
  have "results ! 0 = \<lparr>embedding = [1], provider = Some ''gemini'', model = Some ''text-embedding-004''\<rparr>"
    and "results ! Suc 0 = \<lparr>embedding = [2], provider = Some ''gemini'', model = Some ''text-embedding-004''\<rparr>" by auto
  with l have "results = [\<lparr>embedding = [1], provider = Some ''gemini'', model = Some ''text-embedding-004''\<rparr>, \<lparr>embedding = [2], provider = Some ''gemini'', model = Some ''text-embedding-004''\<rparr>]"
    by (cases results; cases "tl results"; cases "tl (tl results)") auto
  with emb have four: "map c_embedding (chunk_rows (db (snd ?good))) = [Some [1], Some [2]]"
    by (simp add: state_of_def empty_db_def sample_platform_def)
  from src have three: "length (sources (db (snd ?good))) = 1"
    by (simp add: state_of_def empty_db_def)
  from one two two_ingest_succeeds three four show ?thesis by blast
qed

text \<open>
  C8, as stated: an \<open>ingest\<close> that starts while the marker exists and is younger than 15
  minutes fails at once with the contention error. This fails for the Supabase backend,
  where \<open>acquireLock\<close> returns at once (\<open>// Supabase handles concurrency\<close>): with a
  marker that is one second old the call goes on, and here it ingests the text.
\<close>

theorem ingest_supabase_ignores_marker:
  "lockFile (state_of empty_db (Some 999000)) = Some 999000
   \<and> clock (sample_env openai_down) - 999000 < LOCK_TIMEOUT
   \<and> fst (ingest sample_platform supabase_rag (sample_env openai_down)
            (state_of empty_db (Some 999000)) sample_text no_options)
       = Inr (Success 1 sample_text ''text'' 1)"
  by (simp add: ingest_def ingest_body_def acquireLock_def isAsync_def supabase_rag_def
      local_rag_def sample_env_def state_of_def empty_db_def text_extractor_def no_options_def
      sample_text_def MAX_CONTENT_LENGTH_def MIN_CONTENT_LENGTH_def ERROR_SIGNALS_def
      str_includes_def toLowerCase_def lower_char_def Let_def
      sourceExists_def normalizeUrl_def hashContent_def sample_platform_def releaseLock_def
      createChunks_def chunkText_def or_default_def trim_def is_ws_def embedBatch_def
      embedBatch_from.simps BATCH_SIZE_def promise_all_def cache_get_def embed_fetch_def
      gemini_first_def openai_down_def truthy_def retryWithBackoff.simps MAX_RETRIES_def
      embedWithGemini_def insertSource_def LOCK_TIMEOUT_def)

text \<open>
  C8, amended: with the local backend (any backend but Supabase), an \<open>ingest\<close> that
  starts while the marker exists and is younger than 15 minutes fails at once with the
  contention error: nothing is extracted and the state is unchanged. If the marker is older
  than 15 minutes (or exactly that old) it is removed and written again, and the call goes
  on with the block
  inside \<open>try\<close> and releases the lock at the end. With the Supabase backend
  \<open>acquireLock\<close> does nothing, whatever the marker.
\<close>

theorem ingest_lock_marker:
  "(\<not> isAsync r \<and> lockFile st = Some m \<and> clock env - m < LOCK_TIMEOUT
      \<longrightarrow> ingest P r env st input options = (Inl LockContention, st))
   \<and> (\<not> isAsync r \<and> lockFile st = Some m \<and> LOCK_TIMEOUT \<le> clock env - m
      \<longrightarrow> acquireLock r (clock env) st = Inr (st\<lparr>lockFile := Some (clock env)\<rparr>)
          \<and> ingest P r env st input options
              = (fst (ingest_body P r env (st\<lparr>lockFile := Some (clock env)\<rparr>) input options),
                 releaseLock r (snd (ingest_body P r env (st\<lparr>lockFile := Some (clock env)\<rparr>) input options))))
   \<and> (isAsync r \<longrightarrow> acquireLock r (clock env) st = Inr st)"
  by (auto simp: ingest_def acquireLock_def Let_def split: prod.splits)

theorem ingest_lock_marker_witness:
  "ingest sample_platform local_rag (sample_env all_down) (state_of empty_db (Some 999000))
     sample_text no_options
     = (Inl LockContention, state_of empty_db (Some 999000))
   \<and> acquireLock local_rag (clock (sample_env all_down)) (state_of empty_db (Some 0))
     = Inr (state_of empty_db (Some 1000000))
   \<and> acquireLock supabase_rag (clock (sample_env all_down)) (state_of empty_db (Some 999000))
     = Inr (state_of empty_db (Some 999000))"
proof -
  have young: "\<not> isAsync local_rag \<and> lockFile (state_of empty_db (Some 999000)) = Some 999000
               \<and> clock (sample_env all_down) - 999000 < LOCK_TIMEOUT"
    by (simp add: isAsync_def local_rag_def state_of_def sample_env_def LOCK_TIMEOUT_def)
  have old: "\<not> isAsync local_rag \<and> lockFile (state_of empty_db (Some 0)) = Some 0
             \<and> LOCK_TIMEOUT \<le> clock (sample_env all_down) - 0"
    by (simp add: isAsync_def local_rag_def state_of_def sample_env_def LOCK_TIMEOUT_def)
  have remote: "isAsync supabase_rag"
    by (simp add: isAsync_def supabase_rag_def)
  have upd: "(state_of empty_db (Some 0))\<lparr>lockFile := Some (clock (sample_env all_down))\<rparr>
               = state_of empty_db (Some 1000000)"
    by (simp add: state_of_def sample_env_def)
  from ingest_lock_marker [where r = local_rag and st = "state_of empty_db (Some 999000)" and m = 999000
      and env = "sample_env all_down" and P = sample_platform and input = sample_text
      and options = no_options] young
  have a: "ingest sample_platform local_rag (sample_env all_down) (state_of empty_db (Some 999000))
             sample_text no_options = (Inl LockContention, state_of empty_db (Some 999000))"
    by blast
  from ingest_lock_marker [where r = local_rag and st = "state_of empty_db (Some 0)" and m = 0
      and env = "sample_env all_down" and P = sample_platform and input = sample_text
      and options = no_options] old
  have b: "acquireLock local_rag (clock (sample_env all_down)) (state_of empty_db (Some 0))
             = Inr (state_of empty_db (Some 1000000))"
    unfolding upd by blast
  from ingest_lock_marker [where r = supabase_rag and st = "state_of empty_db (Some 999000)" and m = 999000
      and env = "sample_env all_down" and P = sample_platform and input = sample_text
      and options = no_options] remote
  have c: "acquireLock supabase_rag (clock (sample_env all_down)) (state_of empty_db (Some 999000))
             = Inr (state_of empty_db (Some 999000))"
    by blast
  from a b c show ?thesis by blast
qed


section \<open>Properties of search\<close>







lemma dedupe_subseq: "subseq (dedupe_filter seen rs) rs"
  by (induction rs arbitrary: seen) auto

lemma dedupe_ids:
  "set (map (\<lambda>r. source_id (row r)) (dedupe_filter seen rs))
   = set (map (\<lambda>r. source_id (row r)) rs) - seen"
  by (induction rs arbitrary: seen) auto

lemma dedupe_distinct: "distinct (map (\<lambda>r. source_id (row r)) (dedupe_filter seen rs))"
proof (induction rs arbitrary: seen)
  case Nil
  then show ?case by simp
next
  case (Cons r rs)
  have "source_id (row r) \<notin> set (map (\<lambda>r. source_id (row r))
          (dedupe_filter (insert (source_id (row r)) seen) rs))"
    unfolding dedupe_ids by simp
  with Cons show ?case by simp
qed

lemma dedupe_first:
  "k \<notin> seen \<Longrightarrow>
   find (\<lambda>x. source_id (row x) = k) (dedupe_filter seen rs)
   = find (\<lambda>x. source_id (row x) = k) rs"
  by (induction rs arbitrary: seen) auto



text \<open>
  C7: unless \<open>dedupeBySource\<close> is \<open>false\<close>, \<open>search\<close> keeps of the ranked list a
  sub-list in the same order with at most one chunk of each source, and for every source
  of the ranked list the chunk kept is the first of that source in the list; the results
  returned are made from this list. For chunks ranked A, B, A by source, the first and the
  second are kept.
\<close>

theorem search_dedupe_by_source:
  assumes "dedupeBySource options \<noteq> Some False"
  shows "subseq (search_filter options results) results
         \<and> distinct (map (\<lambda>r. source_id (row r)) (search_filter options results))
         \<and> (\<forall>r\<in>set results.
               find (\<lambda>x. source_id (row x) = source_id (row r)) (search_filter options results)
               = find (\<lambda>x. source_id (row x) = source_id (row r)) results)
         \<and> search_finish options results
             = map (project (or_default (maxCharsPerResult options) 2500))
                 (take (or_default (topK options) 10) (search_filter options results))
         \<and> (source_id (row fa) = source_id (row sa) \<and> source_id (row fb) \<noteq> source_id (row fa)
            \<longrightarrow> search_filter options [fa, fb, sa] = [fa, fb])"
  using assms
  by (simp add: search_filter_def search_finish_def dedupe_subseq dedupe_distinct dedupe_first)

theorem search_dedupe_by_source_witness:
  "dedupeBySource default_search_options \<noteq> Some False
   \<and> search_filter default_search_options
        [score first_component [1] (sample_row 1 0 [9 / 10]),
         score first_component [1] (sample_row 2 0 [8 / 10]),
         score first_component [1] (sample_row 1 1 [7 / 10])]
      = [score first_component [1] (sample_row 1 0 [9 / 10]),
         score first_component [1] (sample_row 2 0 [8 / 10])]"
proof -
  have h: "dedupeBySource default_search_options \<noteq> Some False"
    by (simp add: default_search_options_def)
  have ids: "source_id (row (score first_component [1] (sample_row 1 0 [9 / 10])))
               = source_id (row (score first_component [1] (sample_row 1 1 [7 / 10])))
             \<and> source_id (row (score first_component [1] (sample_row 2 0 [8 / 10])))
               \<noteq> source_id (row (score first_component [1] (sample_row 1 0 [9 / 10])))"
    by (simp add: score_def sample_row_def)
  from search_dedupe_by_source [OF h,
      where fa = "score first_component [1] (sample_row 1 0 [9 / 10])"
        and fb = "score first_component [1] (sample_row 2 0 [8 / 10])"
        and sa = "score first_component [1] (sample_row 1 1 [7 / 10])"] ids h
  show ?thesis by blast
qed

section \<open>Properties of cosineSimilarity\<close>





















lemma pow2_pos: "0 < pow2 k"
  by (simp add: pow2_def)















lemma pow2_nonzero [simp]: "pow2 k \<noteq> 0"
  using pow2_pos [of k] by simp



















end
